theory Spec2Isabelle
  imports Main "HOL-Library.AList"
begin

section \<open>Python strings and dictionaries\<close>

text \<open>
  The renamer works on Python \<open>str\<close> values and on \<open>dict\<close>s that keep insertion
  order. A \<open>str\<close> is a \<^typ>\<open>string\<close>; the built-in operations the source calls
  (\<open>startswith\<close>, \<open>endswith\<close>, \<open>in\<close>, \<open>index\<close>, \<open>replace\<close>, \<open>str\<close> of an
  \<open>int\<close>) are written out as executable functions. An exception is a value
  \<open>Inl e\<close> of a sum type; \<open>OSError\<close> stands for the class and its subclasses
  (\<open>FileNotFoundError\<close>, \<open>NotADirectoryError\<close>, \<open>IsADirectoryError\<close> and the like).
\<close>

datatype py_error = ValueError | IndexError | TypeError | OSError

definition startswith :: "string \<Rightarrow> string \<Rightarrow> bool" where
  "startswith s p = (take (length p) s = p)"

definition endswith :: "string \<Rightarrow> string \<Rightarrow> bool" where
  "endswith s x = (length x \<le> length s \<and> drop (length s - length x) s = x)"

text \<open>\<open>s.find(sub)\<close>: the lowest index where \<open>sub\<close> starts, \<open>None\<close> for \<open>-1\<close>.\<close>

fun py_find :: "string \<Rightarrow> string \<Rightarrow> nat option" where
  "py_find [] sub = (if sub = [] then Some 0 else None)"
| "py_find (c # cs) sub =
     (if startswith (c # cs) sub then Some 0 else map_option Suc (py_find cs sub))"

text \<open>\<open>sub in s\<close>.\<close>

definition py_in :: "string \<Rightarrow> string \<Rightarrow> bool" where
  "py_in sub s = (py_find s sub \<noteq> None)"

text \<open>\<open>s.index(sub)\<close> raises \<open>ValueError\<close> where \<open>find\<close> returns \<open>-1\<close>.\<close>

definition py_index :: "string \<Rightarrow> string \<Rightarrow> py_error + nat" where
  "py_index s sub = (case py_find s sub of None \<Rightarrow> Inl ValueError | Some i \<Rightarrow> Inr i)"

text \<open>
  \<open>s.replace(old, new)\<close>: scan from the left; where \<open>old\<close> starts, emit \<open>new\<close>
  and skip the whole occurrence, otherwise copy one character. For the empty \<open>old\<close>
  CPython puts \<open>new\<close> before every character and at the end.
\<close>

function py_replace :: "string \<Rightarrow> string \<Rightarrow> string \<Rightarrow> string" where
  "py_replace old new s =
     (if old = [] then new @ concat (map (\<lambda>c. c # new) s)
      else if s = [] then []
      else if startswith s old then new @ py_replace old new (drop (length old) s)
      else hd s # py_replace old new (tl s))"
  by pat_completeness auto
termination
  by (relation "measure (\<lambda>(old, new, s). length s)") auto

text \<open>\<open>str(n)\<close> for an \<open>int\<close>: decimal digits, a leading minus sign below zero.\<close>

definition digit_char :: "nat \<Rightarrow> char" where
  "digit_char d = ''0123456789'' ! d"

function str_nat :: "nat \<Rightarrow> string" where
  "str_nat n = (if n < 10 then [digit_char n] else str_nat (n div 10) @ [digit_char (n mod 10)])"
  by pat_completeness auto
termination
  by (relation "measure id") auto

definition str_int :: "int \<Rightarrow> string" where
  "str_int i = (if i < 0 then CHR ''-'' # str_nat (nat (- i)) else str_nat (nat i))"

text \<open>
  A \<open>dict\<close> is an association list in insertion order with distinct keys. Storing
  under a key that is present overwrites the value in place, storing under a new key
  appends: this is \<^const>\<open>AList.update\<close>. A dict comprehension stores its items one
  after the other.
\<close>

type_synonym ('k, 'v) py_dict = "('k \<times> 'v) list"

definition py_dict :: "('k \<times> 'v) list \<Rightarrow> ('k, 'v) py_dict" where
  "py_dict kvs = foldl (\<lambda>d (k, v). AList.update k v d) [] kvs"

section \<open>The file system and the console\<close>

text \<open>
  The source asks the operating system four things: \<open>os.path.exists\<close>,
  \<open>os.listdir\<close>, \<open>os.rename\<close> and \<open>open(...).read()\<close>, each on a path string.
  They are modelled on a file system of numbered nodes, as on Linux: a node is a
  file with its text, or a directory with the number of its parent (for \<open>..\<close>) and
  its named entries in listing order; node \<open>0\<close> is the root and its own parent. Not
  modelled are symbolic links, permissions, limits on lengths and other devices:
  every node may be read and every directory written.
\<close>

datatype inode = File string | Dir nat "(string \<times> nat) list"

text \<open>
  The state the renamer acts on: the \<open>directory\<close> attribute of the object, the
  nodes, the node that is the working directory of the process, what was written to
  the console (one string per \<open>print\<close> or \<open>input\<close> prompt), and a log of the
  \<open>os.rename\<close> calls made (whether they returned or raised).
\<close>

record world =
  directory :: string
  inodes :: "(nat \<times> inode) list"
  cwd :: nat
  stdout :: "string list"
  renames :: "(string \<times> string) list"

text \<open>
  The outcome of running a method: the exception that left it or the value it
  returned, and the state it left behind.
\<close>

type_synonym 'a run = "(py_error + 'a) \<times> world"

definition returning :: "'b \<Rightarrow> 'a run \<Rightarrow> 'b run" where
  "returning v r = (case fst r of Inl e \<Rightarrow> (Inl e, snd r) | Inr x \<Rightarrow> (Inr v, snd r))"

definition print :: "string \<Rightarrow> world \<Rightarrow> world" where
  "print msg s = s\<lparr>stdout := stdout s @ [msg]\<rparr>"

subsection \<open>Paths\<close>

text \<open>\<open>posixpath.join(a, b)\<close>.\<close>

definition os_path_join :: "string \<Rightarrow> string \<Rightarrow> string" where
  "os_path_join a b =
     (if startswith b ''/'' then b
      else if a = [] \<or> endswith a ''/'' then a @ b
      else a @ ''/'' @ b)"

text \<open>The components of a path: \<open>path.split('/')\<close>.\<close>

fun split_slash :: "string \<Rightarrow> string list" where
  "split_slash [] = [[]]"
| "split_slash (c # cs) =
     (if c = CHR ''/'' then [] # split_slash cs
      else (case split_slash cs of [] \<Rightarrow> [[c]] | x # xs \<Rightarrow> (c # x) # xs))"

text \<open>
  Following components from a node. Every step needs a directory to step from; an
  empty component (from \<open>//\<close> or a slash at the end) and \<open>.\<close> stay, \<open>..\<close> goes to the
  parent, a name goes to the entry of that name.
\<close>

fun walk :: "(nat \<times> inode) list \<Rightarrow> nat \<Rightarrow> string list \<Rightarrow> nat option" where
  "walk tab cur [] = Some cur"
| "walk tab cur (c # cs) =
     (case map_of tab cur of
        Some (Dir parent es) \<Rightarrow>
          (if c = [] \<or> c = ''.'' then walk tab cur cs
           else if c = ''..'' then walk tab parent cs
           else (case map_of es c of None \<Rightarrow> None | Some n \<Rightarrow> walk tab n cs))
      | _ \<Rightarrow> None)"

definition has_nul :: "string \<Rightarrow> bool" where
  "has_nul p = (CHR 0x00 \<in> set p)"

definition start_of :: "world \<Rightarrow> string \<Rightarrow> nat" where
  "start_of s p = (if startswith p ''/'' then 0 else cwd s)"

text \<open>The node a path names, if any. The empty path names nothing.\<close>

definition resolve :: "world \<Rightarrow> string \<Rightarrow> nat option" where
  "resolve s p =
     (if p = [] \<or> has_nul p then None
      else (case walk (inodes s) (start_of s p) (split_slash p) of
              None \<Rightarrow> None
            | Some n \<Rightarrow> (case map_of (inodes s) n of None \<Rightarrow> None | Some node \<Rightarrow> Some n)))"

text \<open>
  The place a path names, for \<open>os.rename\<close>: the directory that holds the entry,
  the name of the entry, and whether slashes followed the name. The root, \<open>.\<close> and
  \<open>..\<close> are no such place.
\<close>

definition strip_slashes :: "string list \<Rightarrow> string list" where
  "strip_slashes comps = rev (dropWhile (\<lambda>c. c = []) (rev comps))"

definition locate :: "world \<Rightarrow> string \<Rightarrow> (nat \<times> string \<times> bool) option" where
  "locate s p =
     (let comps = split_slash p; named = strip_slashes comps
      in if named = [] \<or> last named = ''.'' \<or> last named = ''..'' then None
         else (case walk (inodes s) (start_of s p) (butlast named) of
                 None \<Rightarrow> None
               | Some d \<Rightarrow>
                   (case map_of (inodes s) d of
                      Some (Dir parent es) \<Rightarrow> Some (d, last named, named \<noteq> comps)
                    | _ \<Rightarrow> None)))"

definition entry :: "world \<Rightarrow> nat \<Rightarrow> string \<Rightarrow> nat option" where
  "entry s d name =
     (case map_of (inodes s) d of Some (Dir parent es) \<Rightarrow> map_of es name | _ \<Rightarrow> None)"

subsection \<open>The four operations\<close>

definition os_path_exists :: "world \<Rightarrow> string \<Rightarrow> bool" where
  "os_path_exists s p = (resolve s p \<noteq> None)"

definition os_listdir :: "world \<Rightarrow> string \<Rightarrow> py_error + string list" where
  "os_listdir s p =
     (if has_nul p then Inl ValueError
      else (case resolve s p of
              None \<Rightarrow> Inl OSError
            | Some d \<Rightarrow>
                (case map_of (inodes s) d of
                   Some (Dir parent es) \<Rightarrow> Inr (map fst es)
                 | _ \<Rightarrow> Inl OSError)))"

text \<open>\<open>open(p).read()\<close>, for a file that holds text.\<close>

definition read_text :: "world \<Rightarrow> string \<Rightarrow> py_error + string" where
  "read_text s p =
     (if has_nul p then Inl ValueError
      else (case resolve s p of
              None \<Rightarrow> Inl OSError
            | Some n \<Rightarrow>
                (case map_of (inodes s) n of
                   Some (File txt) \<Rightarrow> Inr txt
                 | _ \<Rightarrow> Inl OSError)))"

text \<open>
  \<open>os.rename\<close> takes the entry out of its directory and enters it under the new
  name in the directory of the new place, where it replaces a file (if it is a file)
  or an empty directory (if it is a directory). It raises \<open>OSError\<close> where Linux
  refuses: a place that cannot be reached, no such entry, a file named with a slash
  at the end, a directory moved into itself or below, a target of the other kind or
  a directory that is not empty.
\<close>

definition set_entries ::
  "(nat \<times> inode) list \<Rightarrow> nat \<Rightarrow> ((string \<times> nat) list \<Rightarrow> (string \<times> nat) list) \<Rightarrow> (nat \<times> inode) list" where
  "set_entries tab d f =
     (case map_of tab d of
        Some (Dir parent es) \<Rightarrow> AList.update d (Dir parent (f es)) tab
      | _ \<Rightarrow> tab)"

definition set_parent :: "(nat \<times> inode) list \<Rightarrow> nat \<Rightarrow> nat \<Rightarrow> (nat \<times> inode) list" where
  "set_parent tab n d =
     (case map_of tab n of
        Some (Dir parent es) \<Rightarrow> AList.update n (Dir d es) tab
      | _ \<Rightarrow> tab)"

definition unlink :: "(nat \<times> inode) list \<Rightarrow> nat \<Rightarrow> string \<Rightarrow> (nat \<times> inode) list" where
  "unlink tab d name = set_entries tab d (filter (\<lambda>e. fst e \<noteq> name))"

definition move ::
  "(nat \<times> inode) list \<Rightarrow> nat \<Rightarrow> string \<Rightarrow> nat \<Rightarrow> string \<Rightarrow> nat \<Rightarrow> (nat \<times> inode) list" where
  "move tab po a pn b n =
     (let t = set_entries (unlink tab po a) pn (\<lambda>es. es @ [(b, n)])
      in if po = pn then t else set_parent t n pn)"

text \<open>A directory and the directories above it, as far as the table is long.\<close>

fun ancestors :: "(nat \<times> inode) list \<Rightarrow> nat \<Rightarrow> nat \<Rightarrow> nat list" where
  "ancestors tab 0 d = [d]"
| "ancestors tab (Suc fuel) d =
     d # (case map_of tab d of
            Some (Dir parent es) \<Rightarrow> if parent = d then [] else ancestors tab fuel parent
          | _ \<Rightarrow> [])"

definition os_rename :: "string \<Rightarrow> string \<Rightarrow> world \<Rightarrow> py_error + world" where
  "os_rename old_path new_path s =
     (if has_nul old_path \<or> has_nul new_path then Inl ValueError
      else
        (case locate s old_path of
           None \<Rightarrow> Inl OSError
         | Some (po, a, slash_a) \<Rightarrow>
        (case locate s new_path of
           None \<Rightarrow> Inl OSError
         | Some (pn, b, slash_b) \<Rightarrow>
        (case entry s po a of
           None \<Rightarrow> Inl OSError
         | Some n \<Rightarrow>
        (case map_of (inodes s) n of
           None \<Rightarrow> Inl OSError
         | Some (File txt) \<Rightarrow>
             if slash_a \<or> slash_b then Inl OSError
             else (case entry s pn b of
                     None \<Rightarrow> Inr (s\<lparr>inodes := move (inodes s) po a pn b n\<rparr>)
                   | Some m \<Rightarrow>
                       if m = n then Inr s
                       else (case map_of (inodes s) m of
                               Some (File txt') \<Rightarrow>
                                 Inr (s\<lparr>inodes := move (unlink (inodes s) pn b) po a pn b n\<rparr>)
                             | _ \<Rightarrow> Inl OSError))
         | Some (Dir parent es) \<Rightarrow>
             if n \<in> set (ancestors (inodes s) (length (inodes s)) pn) then Inl OSError
             else (case entry s pn b of
                     None \<Rightarrow> Inr (s\<lparr>inodes := move (inodes s) po a pn b n\<rparr>)
                   | Some m \<Rightarrow>
                       if m = n then Inr s
                       else (case map_of (inodes s) m of
                               Some (Dir parent' []) \<Rightarrow>
                                 Inr (s\<lparr>inodes := move (unlink (inodes s) pn b) po a pn b n\<rparr>)
                             | _ \<Rightarrow> Inl OSError)))))))"

subsection \<open>Properties\<close>

text \<open>\<open>self.filenames\<close> is \<open>os.listdir(self.directory)\<close>, read anew at every use.\<close>

definition filenames :: "world \<Rightarrow> py_error + string list" where
  "filenames s = os_listdir s (directory s)"

section \<open>Quick methods\<close>

definition get_ext :: "string \<Rightarrow> py_error + string" where
  "get_ext fname =
     (case py_index fname ''.'' of Inl e \<Rightarrow> Inl e | Inr i \<Rightarrow> Inr (drop i fname))"

definition get_suffixed :: "string \<Rightarrow> string \<Rightarrow> py_error + string" where
  "get_suffixed fname suffix =
     (case py_index fname ''.'' of
        Inl e \<Rightarrow> Inl e
      | Inr i \<Rightarrow>
          (case get_ext fname of
             Inl e \<Rightarrow> Inl e
           | Inr ext \<Rightarrow> Inr (take i fname @ suffix @ ext)))"

definition get_prefixed :: "string \<Rightarrow> string \<Rightarrow> string" where
  "get_prefixed fname prefix = prefix @ fname"

definition join_with_dir :: "world \<Rightarrow> string \<Rightarrow> string" where
  "join_with_dir s fname = os_path_join (directory s) fname"

section \<open>Generic renaming methods\<close>

text \<open>
  \<open>rename\<close> renames one file. It returns nothing, and no value of the source says
  which of its branches ran: that shows on the console and in the file system.
  Nothing guards the call of \<open>os.rename\<close>, so what it raises leaves \<open>rename\<close>.
\<close>

definition rename :: "string \<Rightarrow> string \<Rightarrow> world \<Rightarrow> unit run" where
  "rename old_path new_path s =
     (if \<not> os_path_exists s old_path then
        (Inr (), print (''ERROR: '' @ [CHR 0x22] @ old_path @ [CHR 0x22]
                          @ '' does not exist. Skipping...'') s)
      else if os_path_exists s new_path then
        (Inr (), print (''ERROR: '' @ [CHR 0x22] @ new_path @ [CHR 0x22]
                          @ '' already exists. Skipping...'') s)
      else
        (case os_rename old_path new_path s of
           Inl e \<Rightarrow> (Inl e, s\<lparr>renames := renames s @ [(old_path, new_path)]\<rparr>)
         | Inr s' \<Rightarrow> (Inr (), s'\<lparr>renames := renames s' @ [(old_path, new_path)]\<rparr>)))"

text \<open>
  The three outcomes an entry can have, in the words of the specification, told apart
  by what \<open>rename\<close> leaves to be seen: a line on the console that the source does not
  exist, a line that the target exists, or neither and a call of \<open>os.rename\<close> that
  returned. An entry whose call of \<open>os.rename\<close> raises has no outcome.
\<close>

datatype RenameOutcome = Applied | SkippedMissingSource | SkippedTargetExists

definition rename_outcome :: "string \<Rightarrow> string \<Rightarrow> world \<Rightarrow> RenameOutcome option" where
  "rename_outcome old_path new_path s =
     (let r = rename old_path new_path s
      in if fst r \<noteq> Inr () then None
         else if stdout (snd r) = stdout s @ [''ERROR: '' @ [CHR 0x22] @ old_path @ [CHR 0x22]
                                               @ '' does not exist. Skipping...'']
         then Some SkippedMissingSource
         else if stdout (snd r) = stdout s @ [''ERROR: '' @ [CHR 0x22] @ new_path @ [CHR 0x22]
                                               @ '' already exists. Skipping...'']
         then Some SkippedTargetExists
         else Some Applied)"

text \<open>The two loops of \<open>rename_these\<close> over \<open>files_to_change.items()\<close>.\<close>

fun show_changes :: "(string, string) py_dict \<Rightarrow> world \<Rightarrow> world" where
  "show_changes [] s = s"
| "show_changes ((old, new) # rest) s =
     show_changes rest (print (old @ [CHR 0x09] @ ''->'' @ [CHR 0x09] @ new) s)"

fun make_changes :: "(string, string) py_dict \<Rightarrow> world \<Rightarrow> unit run" where
  "make_changes [] s = (Inr (), s)"
| "make_changes ((old, new) # rest) s =
     (case rename (join_with_dir s old) (join_with_dir s new) s of
        (Inl e, s') \<Rightarrow> (Inl e, s')
      | (Inr u, s') \<Rightarrow> make_changes rest s')"

text \<open>
  The outcomes of the entries \<open>make_changes\<close> gets through, each in the state the
  loop reaches it in; the list ends where a call of \<open>os.rename\<close> raises.
\<close>

fun make_changes_outcomes :: "(string, string) py_dict \<Rightarrow> world \<Rightarrow> RenameOutcome list" where
  "make_changes_outcomes [] s = []"
| "make_changes_outcomes ((old, new) # rest) s =
     (case rename_outcome (join_with_dir s old) (join_with_dir s new) s of
        None \<Rightarrow> []
      | Some oc \<Rightarrow>
          oc # make_changes_outcomes rest
                 (snd (rename (join_with_dir s old) (join_with_dir s new) s)))"

text \<open>
  \<open>rename_these\<close> takes the answer typed at the \<open>input\<close> prompt as \<open>ans\<close>.
  \<open>show_and_ask\<close> is its first part: the optional display of the changes and the
  prompt. Where \<open>rename_these\<close> returns, it ends in a bare \<open>return\<close> or falls off the
  end, so the value is Python's \<open>None\<close>; the type leaves room for a list of
  per-entry outcomes.
\<close>

type_synonym outcome_report = "(string \<times> string \<times> RenameOutcome) list"

definition show_and_ask :: "(string, string) py_dict \<Rightarrow> bool \<Rightarrow> world \<Rightarrow> world" where
  "show_and_ask files_to_change display s =
     print ''Make these changes? (y/n): ''
       (if display
        then show_changes files_to_change
               (print (replicate 20 CHR ''-'' @ [CHR 0x0A] @ ''CHANGES:'' @ [CHR 0x0A]
                         @ replicate 20 CHR ''-'') s)
        else s)"

definition rename_these ::
  "(string, string) py_dict \<Rightarrow> bool \<Rightarrow> string \<Rightarrow> world \<Rightarrow> outcome_report option run" where
  "rename_these files_to_change display ans s =
     (let s' = show_and_ask files_to_change display s
      in if ans \<noteq> ''y'' then (Inr None, print (''Changes discarded...'' @ [CHR 0x0A]) s')
         else returning None (make_changes files_to_change s'))"

text \<open>
  The console lines one entry adds: none when it is renamed, the error line of the
  branch otherwise.
\<close>

fun outcome_lines :: "string \<Rightarrow> string \<Rightarrow> RenameOutcome \<Rightarrow> string list" where
  "outcome_lines old_path new_path Applied = []"
| "outcome_lines old_path new_path SkippedMissingSource =
     [''ERROR: '' @ [CHR 0x22] @ old_path @ [CHR 0x22] @ '' does not exist. Skipping...'']"
| "outcome_lines old_path new_path SkippedTargetExists =
     [''ERROR: '' @ [CHR 0x22] @ new_path @ [CHR 0x22] @ '' already exists. Skipping...'']"

fun report_lines :: "world \<Rightarrow> ((string \<times> string) \<times> RenameOutcome) list \<Rightarrow> string list" where
  "report_lines s [] = []"
| "report_lines s (((old, new), oc) # rest) =
     outcome_lines (join_with_dir s old) (join_with_dir s new) oc @ report_lines s rest"

section \<open>Main methods\<close>

text \<open>
  Each method reads \<open>self.filenames\<close>, builds \<open>change_list\<close> and hands it to
  \<open>rename_these\<close>. The function named \<open>_plan\<close> is the dict the method builds from a
  listing; the method itself follows. The methods return nothing.
\<close>

definition replace_plan :: "string \<Rightarrow> string \<Rightarrow> string list \<Rightarrow> (string, string) py_dict" where
  "replace_plan change_this to_this fnames =
     py_dict [(filename, py_replace change_this to_this filename).
                filename \<leftarrow> fnames, py_in change_this filename]"

definition replace :: "string \<Rightarrow> string \<Rightarrow> string \<Rightarrow> world \<Rightarrow> unit run" where
  "replace change_this to_this ans s =
     (case filenames s of
        Inl e \<Rightarrow> (Inl e, s)
      | Inr fnames \<Rightarrow>
          returning () (rename_these (replace_plan change_this to_this fnames) True ans s))"

definition add_prefix_plan :: "string \<Rightarrow> string list \<Rightarrow> (string, string) py_dict" where
  "add_prefix_plan prefix fnames =
     py_dict [(filename, prefix @ filename).
                filename \<leftarrow> fnames, \<not> startswith filename prefix]"

definition add_prefix :: "string \<Rightarrow> bool \<Rightarrow> string \<Rightarrow> world \<Rightarrow> unit run" where
  "add_prefix prefix display ans s =
     (case filenames s of
        Inl e \<Rightarrow> (Inl e, s)
      | Inr fnames \<Rightarrow>
          returning () (rename_these (add_prefix_plan prefix fnames) display ans s))"

text \<open>
  The comprehension of \<open>add_suffix\<close> calls \<open>get_suffixed\<close>, which raises for a name
  without a dot; the exception ends the comprehension and leaves \<open>add_suffix\<close>.
\<close>

fun add_suffix_items :: "string \<Rightarrow> string list \<Rightarrow> py_error + (string \<times> string) list" where
  "add_suffix_items suffix [] = Inr []"
| "add_suffix_items suffix (filename # rest) =
     (if \<not> endswith filename suffix then
        (case get_suffixed filename suffix of
           Inl e \<Rightarrow> Inl e
         | Inr new \<Rightarrow>
             (case add_suffix_items suffix rest of
                Inl e \<Rightarrow> Inl e
              | Inr kvs \<Rightarrow> Inr ((filename, new) # kvs)))
      else add_suffix_items suffix rest)"

definition add_suffix_plan :: "string \<Rightarrow> string list \<Rightarrow> py_error + (string, string) py_dict" where
  "add_suffix_plan suffix fnames =
     (case add_suffix_items suffix fnames of Inl e \<Rightarrow> Inl e | Inr kvs \<Rightarrow> Inr (py_dict kvs))"

definition add_suffix :: "string \<Rightarrow> bool \<Rightarrow> string \<Rightarrow> world \<Rightarrow> unit run" where
  "add_suffix suffix display ans s =
     (case filenames s of
        Inl e \<Rightarrow> (Inl e, s)
      | Inr fnames \<Rightarrow>
          (case add_suffix_plan suffix fnames of
             Inl e \<Rightarrow> (Inl e, s)
           | Inr change_list \<Rightarrow> returning () (rename_these change_list display ans s)))"

definition add_enum_plan :: "int \<Rightarrow> string \<Rightarrow> string \<Rightarrow> string list \<Rightarrow> (string, string) py_dict" where
  "add_enum_plan start loc sep fnames =
     py_dict [(filename, filename @ sep @ str_int (int idx + start)).
                (idx, filename) \<leftarrow> enumerate 0 fnames]"

definition add_enum :: "int \<Rightarrow> string \<Rightarrow> string \<Rightarrow> bool \<Rightarrow> string \<Rightarrow> world \<Rightarrow> unit run" where
  "add_enum start loc sep display ans s =
     (case filenames s of
        Inl e \<Rightarrow> (Inl e, s)
      | Inr fnames \<Rightarrow>
          returning () (rename_these (add_enum_plan start loc sep fnames) display ans s))"

text \<open>
  \<open>add_from_file\<close> searches each \<open>.txt\<close> file's text with \<open>re.search\<close>. The regular
  expression engine is a parameter: \<open>re_search pattern txt\<close> is \<open>None\<close> when nothing
  matches, and otherwise tells what \<open>group(1)\<close> of the match does: it raises
  \<open>IndexError\<close> (the pattern has no group), returns \<open>None\<close> (the group took no part
  in the match), or returns the captured text.
\<close>

datatype re_group = NoSuchGroup | GroupNone | GroupStr string

type_synonym re_engine = "string \<Rightarrow> string \<Rightarrow> re_group option"

definition joiner :: "string \<Rightarrow> string \<Rightarrow> string \<Rightarrow> py_error + string" where
  "joiner loc = (if loc = ''end'' then get_suffixed else (\<lambda>fname prefix. Inr (get_prefixed fname prefix)))"

fun add_from_file_loop ::
  "re_engine \<Rightarrow> string \<Rightarrow> string \<Rightarrow> string list \<Rightarrow> (string, string) py_dict \<Rightarrow> world
     \<Rightarrow> (string, string) py_dict run" where
  "add_from_file_loop re_search pattern loc [] change_list s = (Inr change_list, s)"
| "add_from_file_loop re_search pattern loc (filename # rest) change_list s =
     (if \<not> endswith filename ''.txt'' then
        add_from_file_loop re_search pattern loc rest change_list
          (print (''Skipping '' @ filename) s)
      else
        (case read_text s (join_with_dir s filename) of
           Inl e \<Rightarrow> (Inl e, s)
         | Inr txt \<Rightarrow>
        (case re_search pattern txt of
           None \<Rightarrow> add_from_file_loop re_search pattern loc rest change_list s
         | Some NoSuchGroup \<Rightarrow> (Inl IndexError, s)
         | Some GroupNone \<Rightarrow> (Inl TypeError, s)
         | Some (GroupStr m) \<Rightarrow>
             (case joiner loc filename m of
                Inl e \<Rightarrow> (Inl e, s)
              | Inr new \<Rightarrow>
                  add_from_file_loop re_search pattern loc rest
                    (AList.update filename new change_list) s))))"

definition add_from_file_plan ::
  "re_engine \<Rightarrow> string \<Rightarrow> string \<Rightarrow> world \<Rightarrow> py_error + (string, string) py_dict" where
  "add_from_file_plan re_search pattern loc s =
     (case filenames s of
        Inl e \<Rightarrow> Inl e
      | Inr fnames \<Rightarrow> fst (add_from_file_loop re_search pattern loc fnames [] s))"

definition add_from_file :: "re_engine \<Rightarrow> string \<Rightarrow> string \<Rightarrow> string \<Rightarrow> world \<Rightarrow> unit run" where
  "add_from_file re_search pattern loc ans s =
     (case filenames s of
        Inl e \<Rightarrow> (Inl e, s)
      | Inr fnames \<Rightarrow>
          (case add_from_file_loop re_search pattern loc fnames [] s of
             (Inl e, s') \<Rightarrow> (Inl e, s')
           | (Inr change_list, s') \<Rightarrow> returning () (rename_these change_list True ans s')))"

section \<open>Rules and plans\<close>

text \<open>
  The five kinds of rule, each with the arguments of the method that carries it out,
  and the plan a rule gives over the directory's current listing.
\<close>

datatype RenameRule =
    Replace string string
  | Prefix string
  | Suffix string
  | Enumerate int string string
  | ContentMatch string string

fun plan_for :: "re_engine \<Rightarrow> world \<Rightarrow> RenameRule \<Rightarrow> py_error + (string, string) py_dict" where
  "plan_for re_search s (Replace change_this to_this) =
     (case filenames s of
        Inl e \<Rightarrow> Inl e
      | Inr fnames \<Rightarrow> Inr (replace_plan change_this to_this fnames))"
| "plan_for re_search s (Prefix prefix) =
     (case filenames s of
        Inl e \<Rightarrow> Inl e
      | Inr fnames \<Rightarrow> Inr (add_prefix_plan prefix fnames))"
| "plan_for re_search s (Suffix suffix) =
     (case filenames s of
        Inl e \<Rightarrow> Inl e
      | Inr fnames \<Rightarrow> add_suffix_plan suffix fnames)"
| "plan_for re_search s (Enumerate start sep loc) =
     (case filenames s of
        Inl e \<Rightarrow> Inl e
      | Inr fnames \<Rightarrow> Inr (add_enum_plan start loc sep fnames))"
| "plan_for re_search s (ContentMatch pattern loc) = add_from_file_plan re_search pattern loc s"

text \<open>
  What it means that every occurrence of \<open>old\<close> in a name is replaced by \<open>new\<close>,
  without overlap and from the left, said without the scan: the name is cut at the
  leftmost occurrence (no occurrence starts before it), the occurrence is exchanged,
  and the rest is treated the same way; a name without an occurrence stays.
\<close>

inductive replaced :: "string \<Rightarrow> string \<Rightarrow> string \<Rightarrow> string \<Rightarrow> bool" for old new where
  replaced_none: "\<not> py_in old s \<Longrightarrow> replaced old new s s"
| replaced_step: "\<not> py_in old (p @ butlast old) \<Longrightarrow> replaced old new rest r
     \<Longrightarrow> replaced old new (p @ old @ rest) (p @ new @ r)"

text \<open>
  A name as a directory holds it: not empty, without a slash, and neither \<open>.\<close> nor
  \<open>..\<close>. \<open>os.listdir\<close> returns such names only.
\<close>

definition entry_name :: "string \<Rightarrow> bool" where
  "entry_name f = (f \<noteq> [] \<and> CHR ''/'' \<notin> set f \<and> f \<noteq> ''.'' \<and> f \<noteq> ''..'')"

text \<open>
  A small file system to run the methods on: \<open>/home/u/docs\<close> holds empty files of
  the given names, the process works in \<open>/home/u\<close>.
\<close>

fun number_from :: "nat \<Rightarrow> string list \<Rightarrow> (string \<times> nat) list" where
  "number_from n [] = []"
| "number_from n (name # names) = (name, n) # number_from (Suc n) names"

definition demo_dir :: "string list \<Rightarrow> world" where
  "demo_dir names =
     \<lparr>directory = ''/home/u/docs'',
      inodes = [(0, Dir 0 [(''home'', Suc 0)]),
                (Suc 0, Dir 0 [(''u'', Suc (Suc 0))]),
                (Suc (Suc 0), Dir (Suc 0) [(''docs'', Suc (Suc (Suc 0)))]),
                (Suc (Suc (Suc 0)), Dir (Suc (Suc 0)) (number_from (Suc (Suc (Suc (Suc 0)))) names))]
               @ map (\<lambda>e. (snd e, File [])) (number_from (Suc (Suc (Suc (Suc 0)))) names),
      cwd = Suc (Suc 0), stdout = [], renames = []\<rparr>"

section \<open>Facts about the string operations\<close>

declare py_replace.simps [simp del]
declare str_nat.simps [simp del]

lemma startswith_iff: "startswith s p \<longleftrightarrow> (\<exists>r. s = p @ r)"
proof
  assume "startswith s p"
  then have "s = p @ drop (length p) s"
    unfolding startswith_def by (metis append_take_drop_id)
  then show "\<exists>r. s = p @ r" ..
next
  assume "\<exists>r. s = p @ r"
  then show "startswith s p" unfolding startswith_def by auto
qed

lemma endswith_iff: "endswith s x \<longleftrightarrow> (\<exists>r. s = r @ x)"
proof
  assume "endswith s x"
  then have "s = take (length s - length x) s @ x"
    unfolding endswith_def by (metis append_take_drop_id)
  then show "\<exists>r. s = r @ x" ..
next
  assume "\<exists>r. s = r @ x"
  then show "endswith s x" unfolding endswith_def by auto
qed

lemma py_find_None_iff: "py_find s sub = None \<longleftrightarrow> \<not> (\<exists>a b. s = a @ sub @ b)"
proof (induction s)
  case Nil
  then show ?case by auto
next
  case (Cons c cs)
  show ?case
  proof (cases "startswith (c # cs) sub")
    case True
    then obtain r where "c # cs = sub @ r" unfolding startswith_iff ..
    then have "c # cs = [] @ sub @ r" by simp
    then have "\<exists>a b. c # cs = a @ sub @ b" by blast
    with True show ?thesis by simp
  next
    case False
    have "(\<exists>a b. c # cs = a @ sub @ b) \<longleftrightarrow> (\<exists>a b. cs = a @ sub @ b)"
    proof
      assume "\<exists>a b. c # cs = a @ sub @ b"
      then obtain a b where ab: "c # cs = a @ sub @ b" by blast
      show "\<exists>a b. cs = a @ sub @ b"
      proof (cases a)
        case Nil
        with ab have "startswith (c # cs) sub" unfolding startswith_iff by auto
        with False show ?thesis by simp
      next
        case (Cons x a')
        with ab have "cs = a' @ sub @ b" by simp
        then show ?thesis by blast
      qed
    next
      assume "\<exists>a b. cs = a @ sub @ b"
      then obtain a b where "cs = a @ sub @ b" by blast
      then have "c # cs = (c # a) @ sub @ b" by simp
      then show "\<exists>a b. c # cs = a @ sub @ b" by blast
    qed
    with False Cons show ?thesis by simp
  qed
qed

lemma py_in_iff: "py_in sub s \<longleftrightarrow> (\<exists>a b. s = a @ sub @ b)"
  by (simp add: py_in_def py_find_None_iff)

lemma py_in_Nil [simp]: "py_in [] s"
proof -
  have "s = [] @ [] @ s" by simp
  then show ?thesis unfolding py_in_iff by blast
qed

lemma py_in_embed: "py_in sub x \<Longrightarrow> py_in sub (a @ x @ b)"
proof -
  assume "py_in sub x"
  then obtain c d where "x = c @ sub @ d" unfolding py_in_iff by blast
  then have "a @ x @ b = (a @ c) @ sub @ (d @ b)" by simp
  then show ?thesis unfolding py_in_iff by blast
qed

lemma py_in_Cons: "\<not> startswith (c # cs) sub \<Longrightarrow> py_in sub (c # cs) \<longleftrightarrow> py_in sub cs"
  by (simp add: py_in_def)

lemma py_replace_Nil: "old \<noteq> [] \<Longrightarrow> py_replace old new [] = []"
  by (simp add: py_replace.simps)

lemma py_replace_hit:
  "old \<noteq> [] \<Longrightarrow> py_replace old new (old @ rest) = new @ py_replace old new rest"
  by (subst py_replace.simps) (simp add: startswith_def)

lemma py_replace_miss:
  "old \<noteq> [] \<Longrightarrow> \<not> startswith (c # cs) old \<Longrightarrow>
     py_replace old new (c # cs) = c # py_replace old new cs"
  by (subst py_replace.simps) simp

lemma py_replace_empty: "py_replace [] new s = new @ concat (map (\<lambda>c. c # new) s)"
  by (simp add: py_replace.simps)

text \<open>An induction rule for the scan with a non-empty pattern.\<close>

lemma py_replace_scan_induct [consumes 1, case_names Nil Hit Miss]:
  assumes "old \<noteq> []"
    and "P []"
    and "\<And>rest. P rest \<Longrightarrow> P (old @ rest)"
    and "\<And>c cs. \<not> startswith (c # cs) old \<Longrightarrow> P cs \<Longrightarrow> P (c # cs)"
  shows "P s"
proof (induction s rule: length_induct)
  case (1 s)
  show ?case
  proof (cases s)
    case Nil
    with assms(2) show ?thesis by simp
  next
    case (Cons c cs)
    show ?thesis
    proof (cases "startswith s old")
      case True
      then obtain rest where s: "s = old @ rest" unfolding startswith_iff ..
      with assms(1) have "length rest < length s" by simp
      with 1 have "P rest" by blast
      with s assms(3) show ?thesis by simp
    next
      case False
      from Cons have "length cs < length s" by simp
      with 1 have "P cs" by blast
      with False Cons assms(4) show ?thesis by simp
    qed
  qed
qed

lemma py_replace_notin: "\<not> py_in old s \<Longrightarrow> py_replace old new s = s"
proof -
  assume n: "\<not> py_in old s"
  then have ne: "old \<noteq> []" by auto
  from ne n show ?thesis
  proof (induction s rule: py_replace_scan_induct)
    case Nil
    then show ?case using ne by (simp add: py_replace_Nil)
  next
    case (Hit rest)
    have "old @ rest = [] @ old @ rest" by simp
    then have "py_in old (old @ rest)" unfolding py_in_iff by blast
    with Hit show ?case by simp
  next
    case (Miss c cs)
    then show ?case using ne by (simp add: py_replace_miss py_in_Cons)
  qed
qed

lemma concat_singletons: "concat (map (\<lambda>c. [c]) s) = s"
  by (induction s) simp_all

lemma py_replace_same: "py_replace old old s = s"
proof (cases "old = []")
  case True
  then show ?thesis by (simp add: py_replace_empty concat_singletons)
next
  case False
  then show ?thesis
  proof (induction s rule: py_replace_scan_induct)
    case Nil
    then show ?case using False by (simp add: py_replace_Nil)
  next
    case (Hit rest)
    then show ?case using False by (simp add: py_replace_hit)
  next
    case (Miss c cs)
    then show ?case using False by (simp add: py_replace_miss)
  qed
qed

lemma py_replace_keeps_pattern:
  assumes "py_in old s" and "py_in old new"
  shows "py_in old (py_replace old new s)"
proof (cases "old = []")
  case True
  then show ?thesis by simp
next
  case False
  from False assms(1) show ?thesis
  proof (induction s rule: py_replace_scan_induct)
    case Nil
    then show ?case using False by (simp add: py_in_def)
  next
    case (Hit rest)
    have "py_in old ([] @ new @ py_replace old new rest)"
      using assms(2) by (rule py_in_embed)
    then show ?case using False by (simp add: py_replace_hit)
  next
    case (Miss c cs)
    then have "py_in old cs" by (simp add: py_in_Cons)
    with Miss have "py_in old (py_replace old new cs)" by simp
    then have "py_in old ([c] @ py_replace old new cs @ [])" by (rule py_in_embed)
    then show ?case using False Miss by (simp add: py_replace_miss)
  qed
qed

subsection \<open>Dictionaries\<close>

lemma set_update_subset: "(k, v) \<in> set (AList.update k' v' d) \<Longrightarrow> (k, v) = (k', v') \<or> (k, v) \<in> set d"
  by (induction d) (auto split: if_splits)

lemma set_foldl_update:
  "(k, v) \<in> set (foldl (\<lambda>d (k, v). AList.update k v d) d kvs) \<Longrightarrow> (k, v) \<in> set d \<or> (k, v) \<in> set kvs"
proof (induction kvs arbitrary: d)
  case Nil
  then show ?case by simp
next
  case (Cons kv kvs)
  obtain k' v' where kv: "kv = (k', v')" by (cases kv)
  from Cons.prems have "(k, v) \<in> set (foldl (\<lambda>d (k, v). AList.update k v d) (AList.update k' v' d) kvs)"
    by (simp add: kv)
  then have "(k, v) \<in> set (AList.update k' v' d) \<or> (k, v) \<in> set kvs"
    by (rule Cons.IH)
  then show ?case
  proof
    assume "(k, v) \<in> set (AList.update k' v' d)"
    then have "(k, v) = (k', v') \<or> (k, v) \<in> set d" by (rule set_update_subset)
    then show ?thesis using kv by auto
  next
    assume "(k, v) \<in> set kvs"
    then show ?thesis by simp
  qed
qed

lemma keys_foldl_update:
  "fst ` set (foldl (\<lambda>d (k, v). AList.update k v d) d kvs) = fst ` set d \<union> fst ` set kvs"
proof (induction kvs arbitrary: d)
  case Nil
  then show ?case by simp
next
  case (Cons kv kvs)
  obtain k' v' where kv: "kv = (k', v')" by (cases kv)
  show ?case by (simp add: kv Cons.IH dom_update)
qed

lemma distinct_foldl_update:
  "distinct (map fst d) \<Longrightarrow> distinct (map fst (foldl (\<lambda>d (k, v). AList.update k v d) d kvs))"
proof (induction kvs arbitrary: d)
  case Nil
  then show ?case by simp
next
  case (Cons kv kvs)
  obtain k' v' where kv: "kv = (k', v')" by (cases kv)
  show ?case using Cons.prems by (simp add: kv Cons.IH distinct_update)
qed

lemma update_fresh: "k \<notin> fst ` set d \<Longrightarrow> AList.update k v d = d @ [(k, v)]"
  by (induction d) auto

lemma foldl_update_distinct:
  "distinct (map fst (d @ kvs)) \<Longrightarrow> foldl (\<lambda>d (k, v). AList.update k v d) d kvs = d @ kvs"
proof (induction kvs arbitrary: d)
  case Nil
  then show ?case by simp
next
  case (Cons kv kvs)
  obtain k' v' where kv: "kv = (k', v')" by (cases kv)
  from Cons.prems kv have fresh: "k' \<notin> fst ` set d" by auto
  from Cons.prems kv have "distinct (map fst ((d @ [(k', v')]) @ kvs))" by simp
  then have "foldl (\<lambda>d (k, v). AList.update k v d) (d @ [(k', v')]) kvs = (d @ [(k', v')]) @ kvs"
    by (rule Cons.IH)
  then show ?case using fresh by (simp add: kv update_fresh)
qed

lemma py_dict_subset: "(k, v) \<in> set (py_dict kvs) \<Longrightarrow> (k, v) \<in> set kvs"
  unfolding py_dict_def using set_foldl_update [of k v "[]" kvs] by simp

lemma py_dict_keys: "fst ` set (py_dict kvs) = fst ` set kvs"
  unfolding py_dict_def by (simp add: keys_foldl_update)

lemma py_dict_distinct: "distinct (map fst (py_dict kvs))"
  unfolding py_dict_def by (rule distinct_foldl_update) simp

lemma py_dict_id: "distinct (map fst kvs) \<Longrightarrow> py_dict kvs = kvs"
  unfolding py_dict_def using foldl_update_distinct [of "[]" kvs] by simp

text \<open>A comprehension whose value is a function of the key.\<close>

lemma set_comprehension:
  "set [(f, g f). f \<leftarrow> fs, c f] = (\<lambda>f. (f, g f)) ` {f \<in> set fs. c f}"
  by (induction fs) auto

lemma keys_comprehension: "fst ` set [(f, g f). f \<leftarrow> fs, c f] = {f \<in> set fs. c f}"
  unfolding set_comprehension by (simp add: image_image)

lemma keys_py_dict_graph:
  "k \<in> fst ` set (py_dict [(f, g f). f \<leftarrow> fs, c f]) \<longleftrightarrow> k \<in> set fs \<and> c k"
  unfolding py_dict_keys keys_comprehension by simp

lemma map_of_py_dict_graph:
  "map_of (py_dict [(f, g f). f \<leftarrow> fs, c f]) k = (if k \<in> set fs \<and> c k then Some (g k) else None)"
proof (cases "k \<in> set fs \<and> c k")
  case True
  then have "k \<in> fst ` set (py_dict [(f, g f). f \<leftarrow> fs, c f])"
    by (simp only: keys_py_dict_graph)
  then obtain v where "(k, v) \<in> set (py_dict [(f, g f). f \<leftarrow> fs, c f])" by auto
  then have "(k, v) \<in> set [(f, g f). f \<leftarrow> fs, c f]" by (rule py_dict_subset)
  then have "v = g k" unfolding set_comprehension by auto
  with \<open>(k, v) \<in> set (py_dict [(f, g f). f \<leftarrow> fs, c f])\<close>
  have "map_of (py_dict [(f, g f). f \<leftarrow> fs, c f]) k = Some (g k)"
    using py_dict_distinct [of "[(f, g f). f \<leftarrow> fs, c f]"] by simp
  with True show ?thesis by simp
next
  case False
  then have "k \<notin> fst ` set (py_dict [(f, g f). f \<leftarrow> fs, c f])"
    by (simp add: keys_py_dict_graph)
  then have "map_of (py_dict [(f, g f). f \<leftarrow> fs, c f]) k = None"
    by (simp add: map_of_eq_None_iff)
  with False show ?thesis by simp
qed

lemma py_dict_graph_distinct:
  "distinct fs \<Longrightarrow> py_dict [(f, g f). f \<leftarrow> fs, c f] = [(f, g f). f \<leftarrow> fs, c f]"
proof (rule py_dict_id)
  assume "distinct fs"
  have "map fst [(f, g f). f \<leftarrow> fs, c f] = filter c fs"
    by (induction fs) simp_all
  with \<open>distinct fs\<close> show "distinct (map fst [(f, g f). f \<leftarrow> fs, c f])" by simp
qed

lemma py_in_shorter: "length s < length old \<Longrightarrow> \<not> py_in old s"
  unfolding py_in_iff by auto

lemma py_in_ConsI: "py_in sub cs \<Longrightarrow> py_in sub (c # cs)"
  using py_in_embed [of sub cs "[c]" "[]"] by simp

lemma startswith_shorten:
  "startswith (x @ y) old \<Longrightarrow> length old \<le> length x \<Longrightarrow> startswith x old"
  unfolding startswith_def by simp

lemma startswith_extend: "startswith x old \<Longrightarrow> startswith (x @ y) old"
  unfolding startswith_iff by auto

lemma startswith_py_in: "startswith x old \<Longrightarrow> py_in old x"
proof -
  assume "startswith x old"
  then obtain r where "x = [] @ old @ r" unfolding startswith_iff by auto
  then show ?thesis unfolding py_in_iff by blast
qed

lemma replaced_Cons:
  assumes ne: "old \<noteq> []" and miss: "\<not> startswith (c # cs) old" and r: "replaced old new cs r"
  shows "replaced old new (c # cs) (c # r)"
  using r
proof (cases rule: replaced.cases)
  case replaced_none
  with miss have "\<not> py_in old (c # cs)" by (simp add: py_in_Cons)
  then have "replaced old new (c # cs) (c # cs)" by (rule replaced.replaced_none)
  with replaced_none show ?thesis by simp
next
  case (replaced_step p rest r')
  have old: "old = butlast old @ [last old]" using ne by simp
  have "\<not> startswith (c # p @ butlast old) old"
  proof
    assume "startswith (c # p @ butlast old) old"
    then have ext: "startswith ((c # p @ butlast old) @ ([last old] @ rest)) old"
      by (rule startswith_extend)
    have e: "(c # p @ butlast old) @ ([last old] @ rest) = c # p @ old @ rest"
      using old by (metis append.assoc append_Cons)
    from ext have "startswith (c # p @ old @ rest) old" unfolding e .
    then show False using miss replaced_step(1) by simp
  qed
  with replaced_step(3) have "\<not> py_in old ((c # p) @ butlast old)"
    by (simp add: py_in_Cons)
  then have "replaced old new ((c # p) @ old @ rest) ((c # p) @ new @ r')"
    using replaced_step(4) by (rule replaced.replaced_step)
  with replaced_step show ?thesis by simp
qed

lemma replaced_py_replace:
  assumes ne: "old \<noteq> []"
  shows "replaced old new s (py_replace old new s)"
  using ne
proof (induction s rule: py_replace_scan_induct)
  case Nil
  have "\<not> py_in old []" using ne by (simp add: py_in_def)
  then have "replaced old new [] []" by (rule replaced_none)
  with ne show ?case by (simp add: py_replace_Nil)
next
  case (Hit rest)
  have "length (butlast old) < length old" using ne by simp
  then have "\<not> py_in old ([] @ butlast old)" by (simp add: py_in_shorter)
  then have "replaced old new ([] @ old @ rest) ([] @ new @ py_replace old new rest)"
    using Hit.IH by (rule replaced_step)
  then show ?case using ne by (simp add: py_replace_hit)
next
  case (Miss c cs)
  from ne Miss(1) Miss(2) have "replaced old new (c # cs) (c # py_replace old new cs)"
    by (rule replaced_Cons)
  then show ?case using Miss ne by (simp add: py_replace_miss)
qed

lemma py_replace_leftmost:
  assumes ne: "old \<noteq> []"
  shows "\<not> py_in old (p @ butlast old) \<Longrightarrow>
         py_replace old new (p @ old @ rest) = p @ new @ py_replace old new rest"
proof (induction p)
  case Nil
  then show ?case using ne by (simp add: py_replace_hit)
next
  case (Cons c p)
  have len: "length old \<le> length (c # p @ butlast old)" by simp
  have miss: "\<not> startswith (c # p @ old @ rest) old"
  proof
    assume "startswith (c # p @ old @ rest) old"
    moreover have "c # p @ old @ rest = (c # p @ butlast old) @ ([last old] @ rest)"
      using ne by (metis append.assoc append_Cons append_butlast_last_id)
    ultimately have "startswith ((c # p @ butlast old) @ ([last old] @ rest)) old" by simp
    then have "startswith (c # p @ butlast old) old" using len by (rule startswith_shorten)
    then have "py_in old (c # p @ butlast old)" by (rule startswith_py_in)
    with Cons.prems show False by simp
  qed
  have "\<not> py_in old (p @ butlast old)"
    using Cons.prems py_in_ConsI [of old "p @ butlast old" c] by auto
  then have "py_replace old new (p @ old @ rest) = p @ new @ py_replace old new rest"
    by (rule Cons.IH)
  with miss ne show ?case by (simp add: py_replace_miss)
qed

lemma replaced_unique:
  assumes ne: "old \<noteq> []"
  shows "replaced old new s r \<Longrightarrow> r = py_replace old new s"
proof (induction rule: replaced.induct)
  case (replaced_none s)
  then show ?case by (simp add: py_replace_notin)
next
  case (replaced_step p rest r)
  then show ?case using ne by (simp add: py_replace_leftmost)
qed

lemma replaced_iff: "old \<noteq> [] \<Longrightarrow> replaced old new s r \<longleftrightarrow> r = py_replace old new s"
  using replaced_unique replaced_py_replace by blast

subsection \<open>replace changes a name that contains the pattern\<close>

lemma length_py_replace_le:
  assumes ne: "old \<noteq> []" and len: "length new \<le> length old"
  shows "length (py_replace old new s) \<le> length s"
  using ne
proof (induction s rule: py_replace_scan_induct)
  case Nil
  then show ?case using ne by (simp add: py_replace_Nil)
next
  case (Hit rest)
  then show ?case using ne len by (simp add: py_replace_hit)
next
  case (Miss c cs)
  then show ?case using ne by (simp add: py_replace_miss)
qed

lemma length_py_replace_ge:
  assumes ne: "old \<noteq> []" and len: "length old \<le> length new"
  shows "length s \<le> length (py_replace old new s)"
  using ne
proof (induction s rule: py_replace_scan_induct)
  case Nil
  then show ?case using ne by (simp add: py_replace_Nil)
next
  case (Hit rest)
  then show ?case using ne len by (simp add: py_replace_hit)
next
  case (Miss c cs)
  then show ?case using ne by (simp add: py_replace_miss)
qed

lemma length_concat_interleave:
  "length (concat (map (\<lambda>c. c # new) s)) = length s * Suc (length new)"
  by (induction s) simp_all

lemma py_replace_changes:
  assumes "py_in old s" and "old \<noteq> new"
  shows "py_replace old new s \<noteq> s"
proof (cases "old = []")
  case True
  with assms(2) have "new \<noteq> []" by simp
  then have "length s < length (py_replace old new s)"
    using True by (simp add: py_replace_empty length_concat_interleave)
  then show ?thesis by auto
next
  case False
  from False assms(1) show ?thesis
  proof (induction s rule: py_replace_scan_induct)
    case Nil
    then show ?case using False by (simp add: py_in_def)
  next
    case (Hit rest)
    show ?case
    proof
      assume "py_replace old new (old @ rest) = old @ rest"
      then have eq: "new @ py_replace old new rest = old @ rest"
        using False by (simp add: py_replace_hit)
      then have leq: "length new + length (py_replace old new rest) = length old + length rest"
        by (metis length_append)
      consider "length new = length old" | "length new < length old" | "length old < length new"
        by linarith
      then show False
      proof cases
        case 1
        with eq have "new = old" by simp
        with assms(2) show False by simp
      next
        case 2
        then have "length (py_replace old new rest) \<le> length rest"
          using False by (simp add: length_py_replace_le)
        with 2 leq show False by simp
      next
        case 3
        then have "length rest \<le> length (py_replace old new rest)"
          using False by (simp add: length_py_replace_ge)
        with 3 leq show False by simp
      qed
    qed
  next
    case (Miss c cs)
    then have "py_in old cs" by (simp add: py_in_Cons)
    with Miss have "py_replace old new cs \<noteq> cs" by simp
    then show ?case using False Miss by (simp add: py_replace_miss)
  qed
qed

section \<open>The plan of replace\<close>

text \<open>
  C4. The plan of \<open>replace\<close> has a name of the listing as a key exactly when
  \<open>change_this\<close> occurs in it, and maps it to \<open>filename.replace(change_this, to_this)\<close>.
  For a non-empty \<open>change_this\<close> that value is the one and only name obtained by
  exchanging the occurrences found from the left, none overlapping another; for the
  empty \<open>change_this\<close> (which occurs in every name) \<open>to_this\<close> is put around every
  character.
\<close>

theorem replace_plan_entries:
  "map_of (replace_plan change_this to_this fnames) f
     = (if f \<in> set fnames \<and> (\<exists>a b. f = a @ change_this @ b)
        then Some (py_replace change_this to_this f) else None)
   \<and> (f \<in> fst ` set (replace_plan change_this to_this fnames)
        \<longleftrightarrow> f \<in> set fnames \<and> (\<exists>a b. f = a @ change_this @ b))
   \<and> (change_this \<noteq> [] \<longrightarrow>
        (\<forall>r. replaced change_this to_this f r \<longleftrightarrow> r = py_replace change_this to_this f))
   \<and> (change_this = [] \<longrightarrow>
        py_replace change_this to_this f = to_this @ concat (map (\<lambda>c. c # to_this) f))"
proof -
  have "map_of (replace_plan change_this to_this fnames) f
     = (if f \<in> set fnames \<and> py_in change_this f
        then Some (py_replace change_this to_this f) else None)"
    unfolding replace_plan_def by (rule map_of_py_dict_graph)
  moreover have "f \<in> fst ` set (replace_plan change_this to_this fnames)
        \<longleftrightarrow> f \<in> set fnames \<and> py_in change_this f"
    unfolding replace_plan_def by (rule keys_py_dict_graph)
  moreover have "change_this \<noteq> [] \<longrightarrow>
        (\<forall>r. replaced change_this to_this f r \<longleftrightarrow> r = py_replace change_this to_this f)"
    by (simp add: replaced_iff)
  moreover have "change_this = [] \<longrightarrow>
        py_replace change_this to_this f = to_this @ concat (map (\<lambda>c. c # to_this) f)"
    by (simp add: py_replace_empty)
  ultimately show ?thesis by (simp only: py_in_iff) 
qed

theorem replace_plan_entries_witness:
  "map_of (replace_plan ''a'' ''o'' [''cat.txt'', ''dog.txt'', ''banana'']) ''banana'' = Some ''bonono''
   \<and> map_of (replace_plan ''a'' ''o'' [''cat.txt'', ''dog.txt'', ''banana'']) ''dog.txt'' = None
   \<and> ''a'' \<noteq> []
   \<and> replaced ''a'' ''o'' ''banana'' ''bonono''"
proof -
  note t = replace_plan_entries [of "''a''" "''o''" "[''cat.txt'', ''dog.txt'', ''banana'']" "''banana''"]
  have ne: "''a'' \<noteq> []" by simp
  have e1: "py_replace ''a'' ''o'' ''banana'' = ''bonono''" by code_simp
  from t ne have "replaced ''a'' ''o'' ''banana'' (py_replace ''a'' ''o'' ''banana'')" by blast
  then have r: "replaced ''a'' ''o'' ''banana'' ''bonono''" by (simp only: e1)
  have m1: "map_of (replace_plan ''a'' ''o'' [''cat.txt'', ''dog.txt'', ''banana'']) ''banana'' = Some ''bonono''"
    by code_simp
  have m2: "map_of (replace_plan ''a'' ''o'' [''cat.txt'', ''dog.txt'', ''banana'']) ''dog.txt'' = None"
    by code_simp
  from m1 m2 ne r show ?thesis by blast
qed

text \<open>
  C5 as stated fails from right to left: the name \<open>aabb\<close> contains \<open>ab\<close>, the empty
  replacement does not, and yet the new name \<open>ab\<close> contains it, because taking the
  occurrence out brings its neighbours together.
\<close>

theorem replace_removes_pattern_counterexample:
  "py_in ''ab'' ''aabb''
   \<and> \<not> py_in ''ab'' ''''
   \<and> map_of (replace_plan ''ab'' '''' [''aabb'']) ''aabb'' = Some ''ab''
   \<and> py_in ''ab'' ''ab''
   \<and> \<not> (\<not> py_in ''ab'' (the (map_of (replace_plan ''ab'' '''' [''aabb'']) ''aabb''))
          \<longleftrightarrow> \<not> py_in ''ab'' '''')"
  by code_simp

text \<open>
  C5, amended. For a name of the listing that contains \<open>change_this\<close>: when
  \<open>to_this\<close> contains \<open>change_this\<close>, so does the name's entry in the plan. Hence an
  entry free of \<open>change_this\<close> shows that \<open>to_this\<close> is free of it; the converse is
  not claimed.
\<close>

theorem replace_keeps_pattern:
  assumes "f \<in> set fnames" and "py_in change_this f" and "py_in change_this to_this"
  shows "\<exists>v. map_of (replace_plan change_this to_this fnames) f = Some v \<and> py_in change_this v"
proof -
  have "map_of (replace_plan change_this to_this fnames) f = Some (py_replace change_this to_this f)"
    unfolding replace_plan_def using assms(1,2) by (simp add: map_of_py_dict_graph)
  moreover have "py_in change_this (py_replace change_this to_this f)"
    using assms(2,3) by (rule py_replace_keeps_pattern)
  ultimately show ?thesis by blast
qed

theorem replace_keeps_pattern_witness:
  "''a.txt'' \<in> set [''a.txt'', ''b.txt''] \<and> py_in ''a'' ''a.txt'' \<and> py_in ''a'' ''aa''
   \<and> (\<exists>v. map_of (replace_plan ''a'' ''aa'' [''a.txt'', ''b.txt'']) ''a.txt'' = Some v \<and> py_in ''a'' v)"
proof -
  have h1: "''a.txt'' \<in> set [''a.txt'', ''b.txt'']" by simp
  have h2: "py_in ''a'' ''a.txt''" by code_simp
  have h3: "py_in ''a'' ''aa''" by code_simp
  from h1 h2 h3 replace_keeps_pattern [OF h1 h2 h3] show ?thesis by blast
qed

section \<open>The plan of add_enum\<close>

lemma enum_items:
  "[(filename, filename @ sep @ str_int (int idx + start)). (idx, filename) \<leftarrow> xs]
     = map (\<lambda>(idx, filename). (filename, filename @ sep @ str_int (int idx + start))) xs"
  by (induction xs) auto

lemma enum_items_keys:
  "map fst (map (\<lambda>(idx, filename). (filename, filename @ sep @ str_int (int idx + start))) xs)
     = map snd xs"
  by (induction xs) auto

lemma add_enum_plan_alt:
  "add_enum_plan start loc sep fnames
     = py_dict (map (\<lambda>(idx, filename). (filename, filename @ sep @ str_int (int idx + start)))
         (enumerate 0 fnames))"
proof -
  have "[(filename, filename @ sep @ str_int (int idx + start)). (idx, filename) \<leftarrow> enumerate 0 fnames]
     = map (\<lambda>(idx, filename). (filename, filename @ sep @ str_int (int idx + start)))
         (enumerate 0 fnames)"
    by (rule enum_items)
  then show ?thesis
    unfolding add_enum_plan_def by (rule arg_cong [where f = py_dict])
qed

lemma add_enum_plan_distinct:
  assumes "distinct fnames"
  shows "add_enum_plan start loc sep fnames
     = map (\<lambda>(idx, filename). (filename, filename @ sep @ str_int (int idx + start)))
         (enumerate 0 fnames)"
proof -
  have "map fst (map (\<lambda>(idx, filename). (filename, filename @ sep @ str_int (int idx + start)))
         (enumerate 0 fnames)) = fnames"
    by (simp only: enum_items_keys map_snd_enumerate)
  with assms have "distinct (map fst (map (\<lambda>(idx, filename). (filename, filename @ sep @ str_int (int idx + start)))
         (enumerate 0 fnames)))"
    by (simp only:)
  then have "py_dict (map (\<lambda>(idx, filename). (filename, filename @ sep @ str_int (int idx + start)))
         (enumerate 0 fnames))
     = map (\<lambda>(idx, filename). (filename, filename @ sep @ str_int (int idx + start)))
         (enumerate 0 fnames)"
    by (rule py_dict_id)
  then show ?thesis by (simp only: add_enum_plan_alt)
qed

lemma endswith_append: "endswith (a @ b) b"
  unfolding endswith_iff by blast

text \<open>
  C6. Over a listing of distinct names the plan of \<open>add_enum\<close> has one entry for
  every name, in listing order, and the name at index \<open>idx\<close> is mapped to the name
  followed by the separator and \<open>str(idx + start)\<close>: the number comes after the
  extension. With \<open>start = 5\<close> and the separator \<open>_\<close>, the names \<open>a.txt\<close>,
  \<open>b.txt\<close>, \<open>c.txt\<close> become \<open>a.txt_5\<close>, \<open>b.txt_6\<close>, \<open>c.txt_7\<close>.
\<close>

theorem add_enum_plan_entries:
  assumes "distinct fnames"
  shows "add_enum_plan start loc sep fnames
           = map (\<lambda>(idx, filename). (filename, filename @ sep @ str_int (int idx + start)))
               (enumerate 0 fnames)
       \<and> map fst (add_enum_plan start loc sep fnames) = fnames
       \<and> (\<forall>idx < length fnames. add_enum_plan start loc sep fnames ! idx
             = (fnames ! idx, fnames ! idx @ sep @ str_int (int idx + start)))
       \<and> add_enum_plan 5 loc ''_'' [''a.txt'', ''b.txt'', ''c.txt'']
           = [(''a.txt'', ''a.txt_5''), (''b.txt'', ''b.txt_6''), (''c.txt'', ''c.txt_7'')]"
proof -
  note plan = add_enum_plan_distinct [OF assms, of start loc sep]
  have keys: "map fst (add_enum_plan start loc sep fnames) = fnames"
    unfolding plan by (simp only: enum_items_keys map_snd_enumerate)
  have nth: "\<forall>idx < length fnames. add_enum_plan start loc sep fnames ! idx
             = (fnames ! idx, fnames ! idx @ sep @ str_int (int idx + start))"
    unfolding plan by (simp add: nth_enumerate_eq)
  have ex: "add_enum_plan 5 loc ''_'' [''a.txt'', ''b.txt'', ''c.txt'']
           = [(''a.txt'', ''a.txt_5''), (''b.txt'', ''b.txt_6''), (''c.txt'', ''c.txt_7'')]"
    by (simp add: add_enum_plan_def py_dict_def str_int_def str_nat.simps digit_char_def)
  show ?thesis by (intro conjI plan keys nth ex)
qed

theorem add_enum_plan_entries_witness:
  "distinct [''x'', ''y'']
   \<and> add_enum_plan (- 1) ''end'' ''-'' [''x'', ''y''] = [(''x'', ''x--1''), (''y'', ''y-0'')]
   \<and> map fst (add_enum_plan (- 1) ''end'' ''-'' [''x'', ''y'']) = [''x'', ''y'']"
proof -
  have h: "distinct [''x'', ''y'']" by simp
  note t = add_enum_plan_entries [OF h, of "- 1" "''end''" "''-''"]
  have e: "add_enum_plan (- 1) ''end'' ''-'' [''x'', ''y''] = [(''x'', ''x--1''), (''y'', ''y-0'')]"
    by (simp add: add_enum_plan_def py_dict_def str_int_def str_nat.simps digit_char_def)
  from t have "map fst (add_enum_plan (- 1) ''end'' ''-'' [''x'', ''y'']) = [''x'', ''y'']"
    by (rule conjunct1 [OF conjunct2])
  with h e show ?thesis by (intro conjI)
qed

text \<open>
  C10. The argument \<open>loc\<close> of \<open>add_enum\<close> is never read: two values of it give
  the same plan and the same run, and in every entry the number stands at the very
  end of the new name.
\<close>

theorem add_enum_ignores_loc:
  "add_enum_plan start loc sep fnames = add_enum_plan start loc' sep fnames
   \<and> add_enum start loc sep display ans s = add_enum start loc' sep display ans s
   \<and> (\<forall>(k, v) \<in> set (add_enum_plan start loc sep fnames).
        \<exists>idx < length fnames. k = fnames ! idx \<and> v = k @ sep @ str_int (int idx + start)
          \<and> endswith v (str_int (int idx + start)))"
proof -
  have same: "add_enum_plan start loc sep fnames = add_enum_plan start loc' sep fnames"
    by (simp add: add_enum_plan_def)
  have run: "add_enum start loc sep display ans s = add_enum start loc' sep display ans s"
    by (simp add: add_enum_def add_enum_plan_def split: sum.split)
  have "\<exists>idx < length fnames. k = fnames ! idx \<and> v = k @ sep @ str_int (int idx + start)
          \<and> endswith v (str_int (int idx + start))"
    if "(k, v) \<in> set (add_enum_plan start loc sep fnames)" for k v
  proof -
    from that have "(k, v) \<in> set (map (\<lambda>(idx, filename). (filename, filename @ sep @ str_int (int idx + start)))
         (enumerate 0 fnames))"
      unfolding add_enum_plan_alt by (rule py_dict_subset)
    then obtain idx filename where p: "(idx, filename) \<in> set (enumerate 0 fnames)"
      and k: "k = filename" and v: "v = filename @ sep @ str_int (int idx + start)"
      by auto
    from p have "idx < length fnames" and "fnames ! idx = filename"
      by (simp_all add: in_set_enumerate_eq)
    moreover have "endswith ((k @ sep) @ str_int (int idx + start)) (str_int (int idx + start))"
      by (rule endswith_append)
    ultimately show ?thesis using k v by auto
  qed
  then have ends: "\<forall>(k, v) \<in> set (add_enum_plan start loc sep fnames).
        \<exists>idx < length fnames. k = fnames ! idx \<and> v = k @ sep @ str_int (int idx + start)
          \<and> endswith v (str_int (int idx + start))"
    by blast
  show ?thesis by (intro conjI same run ends)
qed

theorem add_enum_ignores_loc_witness:
  "add_enum_plan 1 ''start'' ''_'' [''a.txt'', ''b.txt''] = add_enum_plan 1 ''end'' ''_'' [''a.txt'', ''b.txt'']
   \<and> add_enum_plan 1 ''start'' ''_'' [''a.txt'', ''b.txt''] = [(''a.txt'', ''a.txt_1''), (''b.txt'', ''b.txt_2'')]
   \<and> endswith ''a.txt_1'' (str_int 1)"
proof -
  note t = add_enum_ignores_loc [of 1 "''start''" "''_''" "[''a.txt'', ''b.txt'']" "''end''"]
  have e: "add_enum_plan 1 ''start'' ''_'' [''a.txt'', ''b.txt''] = [(''a.txt'', ''a.txt_1''), (''b.txt'', ''b.txt_2'')]"
    by (simp add: add_enum_plan_def py_dict_def str_int_def str_nat.simps digit_char_def)
  have f: "endswith ''a.txt_1'' (str_int 1)"
    by (simp add: endswith_def str_int_def str_nat.simps digit_char_def)
  from t have "add_enum_plan 1 ''start'' ''_'' [''a.txt'', ''b.txt''] = add_enum_plan 1 ''end'' ''_'' [''a.txt'', ''b.txt'']"
    by (rule conjunct1)
  with e f show ?thesis by (intro conjI)
qed

section \<open>Facts about the file system\<close>

lemma walk_append:
  "walk tab cur (xs @ ys) = (case walk tab cur xs of None \<Rightarrow> None | Some n \<Rightarrow> walk tab n ys)"
proof (induction xs arbitrary: cur)
  case Nil
  show ?case by simp
next
  case (Cons c cs)
  show ?case
  proof (cases "map_of tab cur")
    case None
    then show ?thesis by simp
  next
    case (Some node)
    show ?thesis
    proof (cases node)
      case (File content)
      with Some show ?thesis by simp
    next
      case (Dir parent es)
      with Some Cons show ?thesis by (simp split: option.split)
    qed
  qed
qed

lemma walk_empties:
  assumes "map_of tab n = Some (Dir parent es)"
  shows "walk tab n (replicate k []) = Some n"
  using assms by (induction k) simp_all

lemma walk_name:
  assumes "map_of tab d = Some (Dir parent es)" and "b \<noteq> []" and "b \<noteq> ''.''" and "b \<noteq> ''..''"
  shows "walk tab d (b # cs) = (case map_of es b of None \<Rightarrow> None | Some n \<Rightarrow> walk tab n cs)"
  using assms by simp

lemma takeWhile_empties: "takeWhile (\<lambda>c. c = []) xs = replicate (length (takeWhile (\<lambda>c. c = []) xs)) []"
  by (induction xs) simp_all

lemma strip_slashes_decomp:
  "\<exists>k. comps = strip_slashes comps @ replicate k []"
proof -
  have "rev (dropWhile (\<lambda>c. c = []) (rev comps)) @ rev (takeWhile (\<lambda>c. c = []) (rev comps))
      = rev (takeWhile (\<lambda>c. c = []) (rev comps) @ dropWhile (\<lambda>c. c = []) (rev comps))"
    by (simp only: rev_append)
  also have "\<dots> = comps"
    by (simp only: takeWhile_dropWhile_id rev_rev_ident)
  finally have "comps = strip_slashes comps @ rev (takeWhile (\<lambda>c. c = []) (rev comps))"
    by (simp only: strip_slashes_def)
  moreover have "rev (takeWhile (\<lambda>c. c = []) (rev comps))
      = replicate (length (takeWhile (\<lambda>c. c = []) (rev comps))) []"
    by (subst takeWhile_empties) simp
  ultimately have "comps = strip_slashes comps
      @ replicate (length (takeWhile (\<lambda>c. c = []) (rev comps))) []"
    by simp
  then show ?thesis by (rule exI)
qed

lemma strip_slashes_last:
  assumes "strip_slashes comps \<noteq> []"
  shows "last (strip_slashes comps) \<noteq> []"
proof -
  from assms have ne: "dropWhile (\<lambda>c. c = []) (rev comps) \<noteq> []"
    by (simp add: strip_slashes_def)
  then have "\<not> (\<lambda>c. c = []) (hd (dropWhile (\<lambda>c. c = []) (rev comps)))"
    by (rule hd_dropWhile)
  with ne show ?thesis
    by (simp add: strip_slashes_def last_rev)
qed

lemma strip_slashes_same:
  assumes "strip_slashes comps = comps"
  shows "comps = [] \<or> last comps \<noteq> []"
  using assms strip_slashes_last [of comps] by auto

text \<open>
  A place whose entry holds a node names that node as a path, unless slashes follow
  the name of a file.
\<close>

lemma resolve_via_locate:
  assumes loc: "locate s p = Some (d, b, sl)"
    and nul: "\<not> has_nul p"
    and ent: "entry s d b = Some m"
    and node: "map_of (inodes s) m = Some node"
    and dir: "sl \<Longrightarrow> \<exists>parent es. node = Dir parent es"
  shows "resolve s p = Some m"
proof -
  let ?comps = "split_slash p"
  let ?named = "strip_slashes ?comps"
  from loc have named: "?named \<noteq> []" and dot: "last ?named \<noteq> ''.''" and dots: "last ?named \<noteq> ''..''"
    by (auto simp: locate_def Let_def split: if_splits)
  from loc named dot dots obtain parent es where
    w: "walk (inodes s) (start_of s p) (butlast ?named) = Some d"
    and d: "map_of (inodes s) d = Some (Dir parent es)"
    and b: "b = last ?named" and sl: "sl = (?named \<noteq> ?comps)"
    by (auto simp: locate_def Let_def split: if_splits option.splits inode.splits)
  from named have bne: "b \<noteq> []" unfolding b by (rule strip_slashes_last)
  from ent d have e: "map_of es b = Some m" by (simp add: entry_def)
  obtain k where k: "?comps = ?named @ replicate k []"
    using strip_slashes_decomp by blast
  from named have "butlast ?named @ [b] = ?named" unfolding b by (rule append_butlast_last_id)
  then have "?named @ replicate k [] = butlast ?named @ b # replicate k []"
    by (metis append_Cons append_Nil append_assoc)
  with k have comps: "?comps = butlast ?named @ b # replicate k []" by (rule trans)
  have tail: "walk (inodes s) m (replicate k []) = Some m"
  proof (cases k)
    case 0
    then show ?thesis by simp
  next
    case (Suc j)
    with k have "?named \<noteq> ?comps" by auto
    with sl dir obtain parent' es' where "node = Dir parent' es'" by blast
    with node show ?thesis by (simp add: walk_empties)
  qed
  have "walk (inodes s) d (b # replicate k []) = Some m"
    using d bne dot dots e tail unfolding b by simp
  with w have "walk (inodes s) (start_of s p) (butlast ?named @ b # replicate k []) = Some m"
    by (simp add: walk_append)
  with comps have "walk (inodes s) (start_of s p) ?comps = Some m" by simp
  moreover from loc have "p \<noteq> []"
    by (auto simp: locate_def Let_def strip_slashes_def)
  ultimately show ?thesis using nul node by (simp add: resolve_def)
qed

subsection \<open>Moving an entry\<close>

lemma map_of_filter_fst:
  "map_of (filter (\<lambda>e. fst e \<noteq> a) es) k = (if k = a then None else map_of es k)"
  by (induction es) auto

lemma map_of_snoc:
  "map_of (es @ [(b, n)]) k =
     (case map_of es k of Some v \<Rightarrow> Some v | None \<Rightarrow> if k = b then Some n else None)"
  by (induction es) auto

lemma map_of_set_entries:
  "map_of (set_entries tab d f) k =
     (case map_of tab d of
        Some (Dir parent es) \<Rightarrow> if k = d then Some (Dir parent (f es)) else map_of tab k
      | _ \<Rightarrow> map_of tab k)"
  by (simp add: set_entries_def update_conv split: option.split inode.split)


lemma ancestors_self: "d \<in> set (ancestors tab fuel d)"
  by (cases fuel) simp_all

text \<open>A move within one directory changes the entries of that directory only.\<close>

lemma map_of_move_same:
  assumes "map_of tab d = Some (Dir parent es)"
  shows "map_of (move tab d a d b n) k =
           (if k = d then Some (Dir parent (filter (\<lambda>e. fst e \<noteq> a) es @ [(b, n)])) else map_of tab k)"
  using assms by (simp add: move_def unlink_def map_of_set_entries)


text \<open>
  What \<open>os.rename\<close> has done when it returns and the new path did not exist: it
  has moved the entry of the old place to the new place, which was free.
\<close>

lemma os_rename_fresh:
  assumes ren: "os_rename old_path new_path s = Inr s'"
    and fresh: "\<not> os_path_exists s new_path"
  shows "\<exists>po a sa pn b sb n ppo eso ppn esn.
           locate s old_path = Some (po, a, sa) \<and> locate s new_path = Some (pn, b, sb)
         \<and> map_of (inodes s) po = Some (Dir ppo eso) \<and> map_of (inodes s) pn = Some (Dir ppn esn)
         \<and> map_of eso a = Some n \<and> map_of esn b = None \<and> n \<noteq> pn
         \<and> map_of (inodes s) n \<noteq> None
         \<and> s' = s\<lparr>inodes := move (inodes s) po a pn b n\<rparr>"
proof -
  from ren have nul: "\<not> has_nul old_path" "\<not> has_nul new_path"
    by (auto simp: os_rename_def split: if_splits)
  from ren nul obtain po a sa where lo: "locate s old_path = Some (po, a, sa)"
    by (cases "locate s old_path") (auto simp: os_rename_def)
  from ren nul lo obtain pn b sb where ln: "locate s new_path = Some (pn, b, sb)"
    by (cases "locate s new_path") (auto simp: os_rename_def)
  from ren nul lo ln obtain n where en: "entry s po a = Some n"
    by (cases "entry s po a") (auto simp: os_rename_def)
  from ren nul lo ln en obtain node where node: "map_of (inodes s) n = Some node"
    by (cases "map_of (inodes s) n") (auto simp: os_rename_def)
  from lo obtain ppo eso where po: "map_of (inodes s) po = Some (Dir ppo eso)"
    by (auto simp: locate_def Let_def split: if_splits option.splits inode.splits)
  from ln obtain ppn esn where pn: "map_of (inodes s) pn = Some (Dir ppn esn)"
    by (auto simp: locate_def Let_def split: if_splits option.splits inode.splits)
  from en po have a: "map_of eso a = Some n" by (simp add: entry_def)
  have free: "entry s pn b = None"
  proof (rule ccontr)
    assume "entry s pn b \<noteq> None"
    then obtain m where em: "entry s pn b = Some m" by blast
    have "\<exists>node'. map_of (inodes s) m = Some node' \<and> (sb \<longrightarrow> (\<exists>parent es. node' = Dir parent es))"
    proof (cases node)
      case (File content)
      with ren nul lo ln en node em have sb: "\<not> sb"
        by (auto simp: os_rename_def split: if_splits)
      show ?thesis
      proof (cases "m = n")
        case True
        with node sb show ?thesis by simp
      next
        case False
        with ren nul lo ln en node em File sb obtain content' where "map_of (inodes s) m = Some (File content')"
          by (auto simp: os_rename_def split: if_splits option.splits inode.splits)
        with sb show ?thesis by simp
      qed
    next
      case (Dir parent es)
      show ?thesis
      proof (cases "m = n")
        case True
        with node Dir show ?thesis by simp
      next
        case False
        with ren nul lo ln en node em Dir obtain parent' where "map_of (inodes s) m = Some (Dir parent' [])"
          by (auto simp: os_rename_def split: if_splits option.splits inode.splits list.splits)
        then show ?thesis by simp
      qed
    qed
    then obtain node' where n': "map_of (inodes s) m = Some node'"
      and d': "sb \<Longrightarrow> \<exists>parent es. node' = Dir parent es"
      by blast
    from ln nul(2) em n' d' have "resolve s new_path = Some m"
      by (rule resolve_via_locate)
    with fresh show False by (simp add: os_path_exists_def)
  qed
  with pn have b: "map_of esn b = None" by (simp add: entry_def)
  have npn: "n \<noteq> pn"
  proof (cases node)
    case (File content)
    with node pn show ?thesis by auto
  next
    case (Dir parent es)
    with ren nul lo ln en node have "n \<notin> set (ancestors (inodes s) (length (inodes s)) pn)"
      by (auto simp: os_rename_def split: if_splits)
    then show ?thesis using ancestors_self by metis
  qed
  have s': "s' = s\<lparr>inodes := move (inodes s) po a pn b n\<rparr>"
  proof (cases node)
    case (File content)
    with ren nul lo ln en node free show ?thesis
      by (auto simp: os_rename_def split: if_splits)
  next
    case (Dir parent es)
    with ren nul lo ln en node free show ?thesis
      by (auto simp: os_rename_def split: if_splits)
  qed
  from lo ln po pn a b npn node s' show ?thesis by blast
qed

lemma os_rename_fields:
  assumes "os_rename old_path new_path s = Inr s'"
  shows "directory s' = directory s \<and> cwd s' = cwd s \<and> stdout s' = stdout s \<and> renames s' = renames s"
  using assms
  by (auto simp: os_rename_def split: if_splits option.splits prod.splits inode.splits list.splits)

section \<open>Declining the confirmation\<close>

lemma directory_print [simp]: "directory (print msg s) = directory s"
  by (simp add: print_def)

lemma inodes_print [simp]: "inodes (print msg s) = inodes s"
  by (simp add: print_def)

lemma cwd_print [simp]: "cwd (print msg s) = cwd s"
  by (simp add: print_def)

lemma renames_print [simp]: "renames (print msg s) = renames s"
  by (simp add: print_def)

lemma stdout_print [simp]: "stdout (print msg s) = stdout s @ [msg]"
  by (simp add: print_def)

lemma directory_show_changes [simp]: "directory (show_changes d s) = directory s"
  by (induction d s rule: show_changes.induct) simp_all

lemma inodes_show_changes [simp]: "inodes (show_changes d s) = inodes s"
  by (induction d s rule: show_changes.induct) simp_all

lemma cwd_show_changes [simp]: "cwd (show_changes d s) = cwd s"
  by (induction d s rule: show_changes.induct) simp_all

lemma renames_show_changes [simp]: "renames (show_changes d s) = renames s"
  by (induction d s rule: show_changes.induct) simp_all

lemma directory_show_and_ask [simp]: "directory (show_and_ask d display s) = directory s"
  by (simp add: show_and_ask_def)

lemma inodes_show_and_ask [simp]: "inodes (show_and_ask d display s) = inodes s"
  by (simp add: show_and_ask_def)

lemma cwd_show_and_ask [simp]: "cwd (show_and_ask d display s) = cwd s"
  by (simp add: show_and_ask_def)

lemma renames_show_and_ask [simp]: "renames (show_and_ask d display s) = renames s"
  by (simp add: show_and_ask_def)

text \<open>What a path names depends on the nodes and the working directory only.\<close>

lemma resolve_cong:
  assumes "inodes s' = inodes s" and "cwd s' = cwd s"
  shows "resolve s' p = resolve s p"
  by (simp only: resolve_def start_of_def assms)

lemma filenames_cong:
  assumes "inodes s' = inodes s" and "cwd s' = cwd s" and "directory s' = directory s"
  shows "filenames s' = filenames s"
  by (simp only: filenames_def os_listdir_def resolve_cong [OF assms(1,2)] assms)

lemma join_with_dir_cong:
  assumes "directory s' = directory s"
  shows "join_with_dir s' f = join_with_dir s f"
  by (simp only: join_with_dir_def assms)

text \<open>
  C1. Whatever the plan and the display flag, an answer other than the literal \<open>y\<close>
  makes \<open>rename_these\<close> return without a call of \<open>os.rename\<close>, and leave the file
  system as it was: the same nodes, hence the same directory listing and the same
  text in every file.
\<close>

theorem rename_these_declined:
  assumes "ans \<noteq> ''y''"
  shows "fst (rename_these files_to_change display ans s) = Inr None
       \<and> renames (snd (rename_these files_to_change display ans s)) = renames s
       \<and> filenames (snd (rename_these files_to_change display ans s)) = filenames s
       \<and> inodes (snd (rename_these files_to_change display ans s)) = inodes s
       \<and> cwd (snd (rename_these files_to_change display ans s)) = cwd s
       \<and> directory (snd (rename_these files_to_change display ans s)) = directory s"
proof -
  let ?s' = "print (''Changes discarded...'' @ [CHR 0x0A]) (show_and_ask files_to_change display s)"
  from assms have r: "rename_these files_to_change display ans s = (Inr None, ?s')"
    by (simp add: rename_these_def Let_def)
  have i: "inodes ?s' = inodes s" and c: "cwd ?s' = cwd s" and d: "directory ?s' = directory s"
    and l: "renames ?s' = renames s"
    by simp_all
  from i c d have f: "filenames ?s' = filenames s" by (rule filenames_cong)
  show ?thesis unfolding r fst_conv snd_conv by (intro conjI refl l f i c d)
qed

theorem rename_these_declined_witness:
  "''n'' \<noteq> ''y''
   \<and> fst (rename_these [(''a.txt'', ''b.txt'')] True ''n'' (demo_dir [''a.txt''])) = Inr None
   \<and> renames (snd (rename_these [(''a.txt'', ''b.txt'')] True ''n'' (demo_dir [''a.txt'']))) = []
   \<and> filenames (snd (rename_these [(''a.txt'', ''b.txt'')] True ''n'' (demo_dir [''a.txt''])))
       = Inr [''a.txt'']"
proof -
  have h: "''n'' \<noteq> ''y''" by simp
  note t = rename_these_declined [OF h, of "[(''a.txt'', ''b.txt'')]" True "demo_dir [''a.txt'']"]
  have r: "renames (demo_dir [''a.txt'']) = []" by (simp add: demo_dir_def)
  have f: "filenames (demo_dir [''a.txt'']) = Inr [''a.txt'']" by code_simp
  from t have a: "fst (rename_these [(''a.txt'', ''b.txt'')] True ''n'' (demo_dir [''a.txt''])) = Inr None"
    by (rule conjunct1)
  from t r have b: "renames (snd (rename_these [(''a.txt'', ''b.txt'')] True ''n'' (demo_dir [''a.txt'']))) = []"
    by simp
  from t f have c: "filenames (snd (rename_these [(''a.txt'', ''b.txt'')] True ''n'' (demo_dir [''a.txt''])))
       = Inr [''a.txt'']"
    by simp
  show ?thesis by (intro conjI h a b c)
qed

section \<open>The confirmed batch\<close>

subsection \<open>One entry\<close>

lemma skip_lines_differ:
  "''ERROR: '' @ [CHR 0x22] @ a @ [CHR 0x22] @ '' does not exist. Skipping...''
     \<noteq> ''ERROR: '' @ [CHR 0x22] @ b @ [CHR 0x22] @ '' already exists. Skipping...''"
proof
  assume "''ERROR: '' @ [CHR 0x22] @ a @ [CHR 0x22] @ '' does not exist. Skipping...''
     = ''ERROR: '' @ [CHR 0x22] @ b @ [CHR 0x22] @ '' already exists. Skipping...''"
  then have "(a @ [CHR 0x22]) @ '' does not exist. Skipping...''
      = (b @ [CHR 0x22]) @ '' already exists. Skipping...''"
    by simp
  moreover have "((a @ [CHR 0x22]) @ '' does not exist. Skipping...''
        = (b @ [CHR 0x22]) @ '' already exists. Skipping...'')
      = (a @ [CHR 0x22] = b @ [CHR 0x22]
          \<and> '' does not exist. Skipping...'' = '' already exists. Skipping...'')"
    by (rule append_eq_append_conv) simp
  ultimately have "'' does not exist. Skipping...'' = '' already exists. Skipping...''"
    by blast
  then show False by simp
qed

lemma rename_missing:
  assumes "\<not> os_path_exists s old_path"
  shows "rename old_path new_path s
           = (Inr (), print (''ERROR: '' @ [CHR 0x22] @ old_path @ [CHR 0x22]
                               @ '' does not exist. Skipping...'') s)"
  using assms by (simp add: rename_def)

lemma rename_exists:
  assumes "os_path_exists s old_path" and "os_path_exists s new_path"
  shows "rename old_path new_path s
           = (Inr (), print (''ERROR: '' @ [CHR 0x22] @ new_path @ [CHR 0x22]
                               @ '' already exists. Skipping...'') s)"
  using assms by (simp add: rename_def)

lemma rename_raises:
  assumes "os_path_exists s old_path" and "\<not> os_path_exists s new_path"
    and "os_rename old_path new_path s = Inl e"
  shows "rename old_path new_path s = (Inl e, s\<lparr>renames := renames s @ [(old_path, new_path)]\<rparr>)"
  using assms by (simp add: rename_def)

lemma rename_applied:
  assumes "os_path_exists s old_path" and "\<not> os_path_exists s new_path"
    and "os_rename old_path new_path s = Inr s'"
  shows "rename old_path new_path s = (Inr (), s'\<lparr>renames := renames s' @ [(old_path, new_path)]\<rparr>)"
  using assms by (simp add: rename_def)

text \<open>
  The outcome read off the console is the branch \<open>rename\<close> has taken, by its two
  tests in their order.
\<close>

lemma rename_outcome_eq:
  "rename_outcome old_path new_path s =
     (if \<not> os_path_exists s old_path then Some SkippedMissingSource
      else if os_path_exists s new_path then Some SkippedTargetExists
      else (case os_rename old_path new_path s of Inl e \<Rightarrow> None | Inr s' \<Rightarrow> Some Applied))"
proof (cases "os_path_exists s old_path")
  case False
  then show ?thesis by (simp add: rename_outcome_def Let_def rename_missing)
next
  case old: True
  show ?thesis
  proof (cases "os_path_exists s new_path")
    case True
    with old show ?thesis
      using skip_lines_differ [of new_path old_path]
      by (simp add: rename_outcome_def Let_def rename_exists)
  next
    case new: False
    show ?thesis
    proof (cases "os_rename old_path new_path s")
      case (Inl e)
      with old new show ?thesis by (simp add: rename_outcome_def Let_def rename_raises)
    next
      case (Inr s')
      then have "stdout s' = stdout s" by (simp add: os_rename_fields)
      with old new Inr show ?thesis by (simp add: rename_outcome_def Let_def rename_applied)
    qed
  qed
qed

lemma rename_outcome_None:
  "rename_outcome old_path new_path s = None \<longleftrightarrow> (\<exists>e. fst (rename old_path new_path s) = Inl e)"
  by (simp add: rename_outcome_def Let_def) (metis old.unit.exhaust sum.exhaust sum.distinct(1))

lemma rename_fields:
  "directory (snd (rename old_path new_path s)) = directory s
   \<and> cwd (snd (rename old_path new_path s)) = cwd s"
  by (simp add: rename_def os_rename_fields split: sum.split)

lemma directory_rename [simp]: "directory (snd (rename old_path new_path s)) = directory s"
  by (simp add: rename_fields)

lemma cwd_rename [simp]: "cwd (snd (rename old_path new_path s)) = cwd s"
  by (simp add: rename_fields)

lemma stdout_rename:
  "stdout (snd (rename old_path new_path s))
     = stdout s @ (case rename_outcome old_path new_path s of
                     None \<Rightarrow> [] | Some oc \<Rightarrow> outcome_lines old_path new_path oc)"
  unfolding rename_outcome_eq
  by (simp add: rename_def os_rename_fields split: sum.split)


subsection \<open>The loop\<close>



lemma directory_make_changes [simp]: "directory (snd (make_changes d s)) = directory s"
proof (induction d s rule: make_changes.induct)
  case (1 s)
  show ?case by simp
next
  case (2 old new rest s)
  let ?r = "rename (join_with_dir s old) (join_with_dir s new) s"
  show ?case
  proof (cases ?r)
    case (Pair v s')
    then have d: "directory s' = directory s"
      using directory_rename [of "join_with_dir s old" "join_with_dir s new" s] by simp
    show ?thesis
    proof (cases v)
      case (Inl e)
      with Pair d show ?thesis by simp
    next
      case (Inr u)
      with Pair d "2.IH" [OF Pair [symmetric] Inr] show ?thesis by simp
    qed
  qed
qed

lemma cwd_make_changes [simp]: "cwd (snd (make_changes d s)) = cwd s"
proof (induction d s rule: make_changes.induct)
  case (1 s)
  show ?case by simp
next
  case (2 old new rest s)
  let ?r = "rename (join_with_dir s old) (join_with_dir s new) s"
  show ?case
  proof (cases ?r)
    case (Pair v s')
    then have d: "cwd s' = cwd s"
      using cwd_rename [of "join_with_dir s old" "join_with_dir s new" s] by simp
    show ?thesis
    proof (cases v)
      case (Inl e)
      with Pair d show ?thesis by simp
    next
      case (Inr u)
      with Pair d "2.IH" [OF Pair [symmetric] Inr] show ?thesis by simp
    qed
  qed
qed


lemma length_make_changes_outcomes: "length (make_changes_outcomes d s) \<le> length d"
  by (induction d s rule: make_changes_outcomes.induct) (simp_all split: option.split)

text \<open>The loop comes to its end exactly when every entry has an outcome.\<close>

lemma make_changes_returns:
  "fst (make_changes d s) = Inr () \<longleftrightarrow> length (make_changes_outcomes d s) = length d"
proof (induction d s rule: make_changes.induct)
  case (1 s)
  show ?case by simp
next
  case (2 old new rest s)
  let ?r = "rename (join_with_dir s old) (join_with_dir s new) s"
  show ?case
  proof (cases "rename_outcome (join_with_dir s old) (join_with_dir s new) s")
    case None
    then obtain e where "fst ?r = Inl e" unfolding rename_outcome_None by blast
    with None show ?thesis by (cases ?r) simp
  next
    case (Some oc)
    then have "\<not> (\<exists>e. fst ?r = Inl e)"
      using rename_outcome_None [of "join_with_dir s old" "join_with_dir s new" s] by simp
    then have f: "fst ?r = Inr ()" by (cases "fst ?r") simp_all
    then obtain s' where r: "?r = (Inr (), s')" by (cases ?r) simp
    with "2.IH" [OF r [symmetric] refl] Some show ?thesis by simp
  qed
qed


lemma report_lines_cong: "directory s = directory s' \<Longrightarrow> report_lines s xs = report_lines s' xs"
  by (induction s xs rule: report_lines.induct) (simp_all add: join_with_dir_def)

lemma stdout_make_changes:
  "stdout (snd (make_changes d s)) = stdout s @ report_lines s (zip d (make_changes_outcomes d s))"
proof (induction d s rule: make_changes.induct)
  case (1 s)
  show ?case by simp
next
  case (2 old new rest s)
  let ?r = "rename (join_with_dir s old) (join_with_dir s new) s"
  note out = stdout_rename [of "join_with_dir s old" "join_with_dir s new" s]
  show ?case
  proof (cases "rename_outcome (join_with_dir s old) (join_with_dir s new) s")
    case None
    then obtain e where "fst ?r = Inl e" unfolding rename_outcome_None by blast
    with None out show ?thesis by (cases ?r) simp
  next
    case (Some oc)
    then have "\<not> (\<exists>e. fst ?r = Inl e)"
      using rename_outcome_None [of "join_with_dir s old" "join_with_dir s new" s] by simp
    then have "fst ?r = Inr ()" by (cases "fst ?r") simp_all
    then obtain s' where r: "?r = (Inr (), s')" by (cases ?r) simp
    then have d: "directory s' = directory s"
      using directory_rename [of "join_with_dir s old" "join_with_dir s new" s] by simp
    from d have "report_lines s' (zip rest (make_changes_outcomes rest s'))
        = report_lines s (zip rest (make_changes_outcomes rest s'))"
      by (rule report_lines_cong)
    with "2.IH" [OF r [symmetric] refl] r Some out show ?thesis by simp
  qed
qed


lemma fst_returning: "fst (returning v r) = (case fst r of Inl e \<Rightarrow> Inl e | Inr x \<Rightarrow> Inr v)"
  by (simp add: returning_def split: sum.split)

lemma snd_returning [simp]: "snd (returning v r) = snd r"
  by (simp add: returning_def split: sum.split)

lemma returning_raise [simp]: "returning v (Inl e, s) = (Inl e, s)"
  by (simp add: returning_def)

lemma returning_return [simp]: "returning v (Inr x, s) = (Inr v, s)"
  by (simp add: returning_def)

lemma rename_these_yes:
  "rename_these plan display ''y'' s = returning None (make_changes plan (show_and_ask plan display s))"
  by (simp add: rename_these_def Let_def)




section \<open>What rename_these reports\<close>

lemma stdout_rename_these:
  "stdout (snd (rename_these d display ''y'' s))
     = stdout (show_and_ask d display s)
       @ report_lines s (zip d (make_changes_outcomes d (show_and_ask d display s)))"
proof -
  have "report_lines (show_and_ask d display s)
          (zip d (make_changes_outcomes d (show_and_ask d display s)))
      = report_lines s (zip d (make_changes_outcomes d (show_and_ask d display s)))"
    by (rule report_lines_cong) simp
  then show ?thesis
    by (simp add: rename_these_yes stdout_make_changes)
qed

lemma rename_these_never_reports:
  "fst (rename_these d display ans s) \<noteq> Inr (Some report)"
  by (simp add: rename_these_def Let_def fst_returning split: sum.split)

lemma rename_these_returns:
  "fst (rename_these d display ''y'' s) = Inr None
     \<longleftrightarrow> length (make_changes_outcomes d (show_and_ask d display s)) = length d"
proof -
  have "fst (rename_these d display ''y'' s) = Inr None
      \<longleftrightarrow> fst (make_changes d (show_and_ask d display s)) = Inr ()"
    by (simp add: rename_these_yes fst_returning split: sum.split)
  then show ?thesis by (simp only: make_changes_returns)
qed

text \<open>
  C9 as stated fails: with one entry that is renamed, \<open>rename_these\<close> returns
  \<open>None\<close>, not the one-element report.
\<close>

theorem rename_these_report_counterexample:
  "make_changes_outcomes [(''a.txt'', ''b.txt'')]
       (show_and_ask [(''a.txt'', ''b.txt'')] True (demo_dir [''a.txt''])) = [Applied]
   \<and> filenames (snd (rename_these [(''a.txt'', ''b.txt'')] True ''y'' (demo_dir [''a.txt''])))
       = Inr [''b.txt'']
   \<and> fst (rename_these [(''a.txt'', ''b.txt'')] True ''y'' (demo_dir [''a.txt''])) = Inr None
   \<and> fst (rename_these [(''a.txt'', ''b.txt'')] True ''y'' (demo_dir [''a.txt'']))
        \<noteq> Inr (Some [(''a.txt'', ''b.txt'', Applied)])"
proof -
  have a: "make_changes_outcomes [(''a.txt'', ''b.txt'')]
       (show_and_ask [(''a.txt'', ''b.txt'')] True (demo_dir [''a.txt''])) = [Applied]"
    by code_simp
  have b: "filenames (snd (rename_these [(''a.txt'', ''b.txt'')] True ''y'' (demo_dir [''a.txt''])))
       = Inr [''b.txt'']"
    by code_simp
  have c: "fst (rename_these [(''a.txt'', ''b.txt'')] True ''y'' (demo_dir [''a.txt''])) = Inr None"
    by code_simp
  then have d: "fst (rename_these [(''a.txt'', ''b.txt'')] True ''y'' (demo_dir [''a.txt'']))
        \<noteq> Inr (Some [(''a.txt'', ''b.txt'', Applied)])"
    by simp
  show ?thesis by (intro conjI a b c d)
qed

text \<open>
  C9, amended. \<open>rename_these\<close> never returns a report: whatever the plan, the
  directory and the answer, it returns \<open>None\<close> or raises. An answer other than
  \<open>y\<close> returns \<open>None\<close>. After the answer \<open>y\<close> the entries have their outcomes in
  the plan's order up to the first whose call of \<open>os.rename\<close> raises; \<open>None\<close> is
  returned exactly when every entry has an outcome, and an exception leaves
  \<open>rename_these\<close> exactly when some entry has none. The outcomes show on the console
  only: to what was written up to the prompt the run adds, entry by entry in that
  order, the error line of a skipped entry and nothing for a renamed one.
\<close>

theorem rename_these_returns_None:
  "fst (rename_these files_to_change display ans s) \<noteq> Inr (Some report)
   \<and> (ans \<noteq> ''y'' \<longrightarrow> fst (rename_these files_to_change display ans s) = Inr None)
   \<and> (fst (rename_these files_to_change display ''y'' s) = Inr None
        \<longleftrightarrow> length (make_changes_outcomes files_to_change (show_and_ask files_to_change display s))
              = length files_to_change)
   \<and> ((\<exists>e. fst (rename_these files_to_change display ''y'' s) = Inl e)
        \<longleftrightarrow> length (make_changes_outcomes files_to_change (show_and_ask files_to_change display s))
              < length files_to_change)
   \<and> stdout (snd (rename_these files_to_change display ''y'' s))
       = stdout (show_and_ask files_to_change display s)
         @ report_lines s (zip files_to_change
             (make_changes_outcomes files_to_change (show_and_ask files_to_change display s)))"
proof -
  let ?outcomes = "make_changes_outcomes files_to_change (show_and_ask files_to_change display s)"
  have never: "fst (rename_these files_to_change display ans s) \<noteq> Inr (Some report)"
    by (rule rename_these_never_reports)
  have decl: "ans \<noteq> ''y'' \<longrightarrow> fst (rename_these files_to_change display ans s) = Inr None"
    by (simp add: rename_these_def Let_def)
  have ret: "fst (rename_these files_to_change display ''y'' s) = Inr None
        \<longleftrightarrow> length ?outcomes = length files_to_change"
    by (rule rename_these_returns)
  have le: "length ?outcomes \<le> length files_to_change"
    by (rule length_make_changes_outcomes)
  have "(\<exists>e. fst (rename_these files_to_change display ''y'' s) = Inl e)
      \<longleftrightarrow> fst (rename_these files_to_change display ''y'' s) \<noteq> Inr None"
  proof (cases "fst (rename_these files_to_change display ''y'' s)")
    case (Inl e)
    then show ?thesis by simp
  next
    case (Inr v)
    with rename_these_never_reports [of files_to_change display "''y''" s] have "v = None"
      by (cases v) auto
    with Inr show ?thesis by simp
  qed
  with ret le have raise: "(\<exists>e. fst (rename_these files_to_change display ''y'' s) = Inl e)
        \<longleftrightarrow> length ?outcomes < length files_to_change"
    by auto
  have out: "stdout (snd (rename_these files_to_change display ''y'' s))
       = stdout (show_and_ask files_to_change display s)
         @ report_lines s (zip files_to_change ?outcomes)"
    by (rule stdout_rename_these)
  show ?thesis by (intro conjI never decl ret raise out)
qed

theorem rename_these_returns_None_witness:
  "length (make_changes_outcomes [(''zz'', ''c''), (''a.txt'', ''b.txt'')]
       (show_and_ask [(''zz'', ''c''), (''a.txt'', ''b.txt'')] False (demo_dir [''a.txt''])))
     = length [(''zz'', ''c''), (''a.txt'', ''b.txt'')]
   \<and> fst (rename_these [(''zz'', ''c''), (''a.txt'', ''b.txt'')] False ''y'' (demo_dir [''a.txt'']))
       = Inr None
   \<and> stdout (snd (rename_these [(''zz'', ''c''), (''a.txt'', ''b.txt'')] False ''y'' (demo_dir [''a.txt''])))
       = [''Make these changes? (y/n): '',
          ''ERROR: '' @ [CHR 0x22] @ ''/home/u/docs/zz'' @ [CHR 0x22] @ '' does not exist. Skipping...'']"
proof -
  note t = rename_these_returns_None [of "[(''zz'', ''c''), (''a.txt'', ''b.txt'')]" False "''y''"
      "demo_dir [''a.txt'']" "[]"]
  have l: "length (make_changes_outcomes [(''zz'', ''c''), (''a.txt'', ''b.txt'')]
       (show_and_ask [(''zz'', ''c''), (''a.txt'', ''b.txt'')] False (demo_dir [''a.txt''])))
     = length [(''zz'', ''c''), (''a.txt'', ''b.txt'')]"
    by code_simp
  from t l have a: "fst (rename_these [(''zz'', ''c''), (''a.txt'', ''b.txt'')] False ''y'' (demo_dir [''a.txt'']))
       = Inr None"
    by blast
  have b: "stdout (snd (rename_these [(''zz'', ''c''), (''a.txt'', ''b.txt'')] False ''y'' (demo_dir [''a.txt''])))
       = [''Make these changes? (y/n): '',
          ''ERROR: '' @ [CHR 0x22] @ ''/home/u/docs/zz'' @ [CHR 0x22] @ '' does not exist. Skipping...'']"
    by code_simp
  show ?thesis by (intro conjI l a b)
qed

section \<open>The plan of add_suffix\<close>

lemma startswith_dot: "startswith (c # cs) ''.'' \<longleftrightarrow> c = CHR ''.''"
  by (simp add: startswith_def)

lemma py_find_dot:
  "py_find f ''.'' = (if CHR ''.'' \<in> set f
                      then Some (length (takeWhile (\<lambda>c. c \<noteq> CHR ''.'') f)) else None)"
  by (induction f) (auto simp: startswith_dot)

lemma get_suffixed_eq:
  "get_suffixed f suffix =
     (if CHR ''.'' \<in> set f
      then Inr (takeWhile (\<lambda>c. c \<noteq> CHR ''.'') f @ suffix @ dropWhile (\<lambda>c. c \<noteq> CHR ''.'') f)
      else Inl ValueError)"
proof (cases "CHR ''.'' \<in> set f")
  case True
  have t: "take (length (takeWhile (\<lambda>c. c \<noteq> CHR ''.'') f)) f = takeWhile (\<lambda>c. c \<noteq> CHR ''.'') f"
    by (rule takeWhile_eq_take [symmetric])
  have d: "drop (length (takeWhile (\<lambda>c. c \<noteq> CHR ''.'') f)) f = dropWhile (\<lambda>c. c \<noteq> CHR ''.'') f"
    by (rule dropWhile_eq_drop [symmetric])
  from True show ?thesis
    by (simp add: get_suffixed_def get_ext_def py_index_def py_find_dot t d)
next
  case False
  then show ?thesis
    by (simp add: get_suffixed_def get_ext_def py_index_def py_find_dot)
qed

lemma add_suffix_items_eq:
  "add_suffix_items suffix fnames =
     (if \<exists>f \<in> set fnames. \<not> endswith f suffix \<and> CHR ''.'' \<notin> set f then Inl ValueError
      else Inr [(f, takeWhile (\<lambda>c. c \<noteq> CHR ''.'') f @ suffix @ dropWhile (\<lambda>c. c \<noteq> CHR ''.'') f).
                  f \<leftarrow> fnames, \<not> endswith f suffix])"
  by (induction fnames) (auto simp: get_suffixed_eq)

lemma add_suffix_plan_eq:
  "add_suffix_plan suffix fnames =
     (if \<exists>f \<in> set fnames. \<not> endswith f suffix \<and> CHR ''.'' \<notin> set f then Inl ValueError
      else Inr (py_dict [(f, takeWhile (\<lambda>c. c \<noteq> CHR ''.'') f @ suffix @ dropWhile (\<lambda>c. c \<noteq> CHR ''.'') f).
                  f \<leftarrow> fnames, \<not> endswith f suffix]))"
  by (simp add: add_suffix_plan_def add_suffix_items_eq)

lemma stdout_show_changes: "\<exists>more. stdout (show_changes d s) = stdout s @ more"
proof (induction d s rule: show_changes.induct)
  case (1 s)
  show ?case by simp
next
  case (2 old new rest s)
  then obtain more where
    "stdout (show_changes rest (print (old @ [CHR 0x09] @ ''->'' @ [CHR 0x09] @ new) s))
       = stdout (print (old @ [CHR 0x09] @ ''->'' @ [CHR 0x09] @ new) s) @ more"
    by blast
  then show ?case by simp
qed

lemma stdout_show_and_ask:
  "\<exists>more. stdout (show_and_ask d display s) = stdout s @ more @ [''Make these changes? (y/n): '']"
proof (cases display)
  case True
  obtain more where "stdout (show_changes d
               (print (replicate 20 CHR ''-'' @ [CHR 0x0A] @ ''CHANGES:'' @ [CHR 0x0A]
                         @ replicate 20 CHR ''-'') s))
      = stdout (print (replicate 20 CHR ''-'' @ [CHR 0x0A] @ ''CHANGES:'' @ [CHR 0x0A]
                         @ replicate 20 CHR ''-'') s) @ more"
    using stdout_show_changes by blast
  with True show ?thesis by (simp add: show_and_ask_def)
next
  case False
  then show ?thesis by (simp add: show_and_ask_def)
qed

text \<open>Whatever the answer, \<open>rename_these\<close> has written to the console.\<close>

lemma rename_these_writes:
  "length (stdout s) < length (stdout (snd (rename_these d display ans s)))"
proof -
  obtain more where m: "stdout (show_and_ask d display s) = stdout s @ more @ [''Make these changes? (y/n): '']"
    using stdout_show_and_ask by blast
  show ?thesis
  proof (cases "ans = ''y''")
    case True
    then show ?thesis by (simp add: stdout_rename_these m)
  next
    case False
    then show ?thesis by (simp add: rename_these_def Let_def m)
  qed
qed

text \<open>
  C8. Planning for \<open>add_suffix\<close> fails exactly when some name of the listing that
  does not end with the suffix has no dot; the failure is the \<open>ValueError\<close> of
  \<open>str.index\<close> (the error the specification calls NoExtension) and planning fails
  in no other way. Otherwise the plan has a name as a key exactly when the name is in
  the listing and does not end with the suffix, and maps it to the part before its
  first dot, the suffix, and the part from that dot on. The failure leaves
  \<open>add_suffix\<close> itself: over a directory that can be listed, \<open>add_suffix\<close> raises
  \<open>ValueError\<close> before it has written or changed anything exactly when such a name
  is listed.
\<close>

theorem add_suffix_plan_spec:
  "add_suffix_plan suffix fnames =
     (if \<exists>f \<in> set fnames. \<not> endswith f suffix \<and> CHR ''.'' \<notin> set f then Inl ValueError
      else Inr (py_dict [(f, takeWhile (\<lambda>c. c \<noteq> CHR ''.'') f @ suffix @ dropWhile (\<lambda>c. c \<noteq> CHR ''.'') f).
                  f \<leftarrow> fnames, \<not> endswith f suffix]))
   \<and> (\<forall>d. add_suffix_plan suffix fnames = Inr d \<longrightarrow>
         map_of d f = (if f \<in> set fnames \<and> \<not> (\<exists>r. f = r @ suffix)
                       then Some (takeWhile (\<lambda>c. c \<noteq> CHR ''.'') f @ suffix
                                    @ dropWhile (\<lambda>c. c \<noteq> CHR ''.'') f)
                       else None))
   \<and> (filenames s = Inr fnames \<longrightarrow>
        (add_suffix suffix display ans s = (Inl ValueError, s)
           \<longleftrightarrow> (\<exists>f \<in> set fnames. \<not> (\<exists>r. f = r @ suffix) \<and> CHR ''.'' \<notin> set f)))
   \<and> (\<forall>e. add_suffix_plan suffix fnames = Inl e \<longrightarrow> e = ValueError)"
proof -
  note plan = add_suffix_plan_eq [of suffix fnames]
  have entries: "\<forall>d. add_suffix_plan suffix fnames = Inr d \<longrightarrow>
         map_of d f = (if f \<in> set fnames \<and> \<not> (\<exists>r. f = r @ suffix)
                       then Some (takeWhile (\<lambda>c. c \<noteq> CHR ''.'') f @ suffix
                                    @ dropWhile (\<lambda>c. c \<noteq> CHR ''.'') f)
                       else None)"
  proof (intro allI impI)
    fix d assume "add_suffix_plan suffix fnames = Inr d"
    with plan have "d = py_dict [(f, takeWhile (\<lambda>c. c \<noteq> CHR ''.'') f @ suffix @ dropWhile (\<lambda>c. c \<noteq> CHR ''.'') f).
                  f \<leftarrow> fnames, \<not> endswith f suffix]"
      by (simp split: if_splits)
    then show "map_of d f = (if f \<in> set fnames \<and> \<not> (\<exists>r. f = r @ suffix)
                       then Some (takeWhile (\<lambda>c. c \<noteq> CHR ''.'') f @ suffix
                                    @ dropWhile (\<lambda>c. c \<noteq> CHR ''.'') f)
                       else None)"
      by (simp only: map_of_py_dict_graph endswith_iff)
  qed
  have fails: "filenames s = Inr fnames \<longrightarrow>
        (add_suffix suffix display ans s = (Inl ValueError, s)
           \<longleftrightarrow> (\<exists>f \<in> set fnames. \<not> (\<exists>r. f = r @ suffix) \<and> CHR ''.'' \<notin> set f))"
  proof
    assume l: "filenames s = Inr fnames"
    show "add_suffix suffix display ans s = (Inl ValueError, s)
           \<longleftrightarrow> (\<exists>f \<in> set fnames. \<not> (\<exists>r. f = r @ suffix) \<and> CHR ''.'' \<notin> set f)"
    proof (cases "\<exists>f \<in> set fnames. \<not> endswith f suffix \<and> CHR ''.'' \<notin> set f")
      case True
      then have "add_suffix suffix display ans s = (Inl ValueError, s)"
        by (simp add: add_suffix_def l add_suffix_plan_eq)
      with True show ?thesis by (simp add: endswith_iff)
    next
      case False
      then obtain d where "add_suffix suffix display ans s = returning () (rename_these d display ans s)"
        by (simp add: add_suffix_def l add_suffix_plan_eq)
      then have "snd (add_suffix suffix display ans s) = snd (rename_these d display ans s)"
        by simp
      with rename_these_writes [of s d display ans]
      have "snd (add_suffix suffix display ans s) \<noteq> s"
        by auto
      then have "add_suffix suffix display ans s \<noteq> (Inl ValueError, s)"
        by auto
      with False show ?thesis by (simp add: endswith_iff)
    qed
  qed
  have only: "\<forall>e. add_suffix_plan suffix fnames = Inl e \<longrightarrow> e = ValueError"
    by (simp add: add_suffix_plan_eq)
  show ?thesis by (intro conjI plan entries fails only)
qed

theorem add_suffix_plan_spec_witness:
  "add_suffix_plan ''_v2'' [''report.csv'', ''summary.csv'', ''x_v2'']
     = Inr [(''report.csv'', ''report_v2.csv''), (''summary.csv'', ''summary_v2.csv'')]
   \<and> map_of [(''report.csv'', ''report_v2.csv''), (''summary.csv'', ''summary_v2.csv'')] ''x_v2'' = None
   \<and> add_suffix_plan ''_v2'' [''report.csv'', ''README''] = Inl ValueError
   \<and> filenames (demo_dir [''report.csv'', ''README'']) = Inr [''report.csv'', ''README'']
   \<and> add_suffix ''_v2'' True ''y'' (demo_dir [''report.csv'', ''README''])
       = (Inl ValueError, demo_dir [''report.csv'', ''README''])"
proof -
  note t = add_suffix_plan_spec [of "''_v2''" "[''report.csv'', ''summary.csv'', ''x_v2'']" "''x_v2''"]
  note u = add_suffix_plan_spec [of "''_v2''" "[''report.csv'', ''README'']" "''x''"
      "demo_dir [''report.csv'', ''README'']" True "''y''"]
  have e1: "add_suffix_plan ''_v2'' [''report.csv'', ''summary.csv'', ''x_v2'']
     = Inr [(''report.csv'', ''report_v2.csv''), (''summary.csv'', ''summary_v2.csv'')]"
    by code_simp
  have e2: "add_suffix_plan ''_v2'' [''report.csv'', ''README''] = Inl ValueError"
    by code_simp
  have l: "filenames (demo_dir [''report.csv'', ''README'']) = Inr [''report.csv'', ''README'']"
    by code_simp
  have "\<not> (\<exists>r. ''README'' = r @ ''_v2'')"
    by (simp add: endswith_iff [symmetric] endswith_def)
  then have "\<exists>f \<in> set [''report.csv'', ''README'']. \<not> (\<exists>r. f = r @ ''_v2'') \<and> CHR ''.'' \<notin> set f"
    by simp
  with u l have e3: "add_suffix ''_v2'' True ''y'' (demo_dir [''report.csv'', ''README''])
       = (Inl ValueError, demo_dir [''report.csv'', ''README''])"
    by blast
  from t e1 have "map_of [(''report.csv'', ''report_v2.csv''), (''summary.csv'', ''summary_v2.csv'')] ''x_v2''
      = (if ''x_v2'' \<in> set [''report.csv'', ''summary.csv'', ''x_v2''] \<and> \<not> (\<exists>r. ''x_v2'' = r @ ''_v2'')
         then Some (takeWhile (\<lambda>c. c \<noteq> CHR ''.'') ''x_v2'' @ ''_v2''
                      @ dropWhile (\<lambda>c. c \<noteq> CHR ''.'') ''x_v2'')
         else None)"
    by blast
  moreover have "\<exists>r. ''x_v2'' = r @ ''_v2''"
    by (rule exI [of _ "''x''"]) simp
  ultimately have e4: "map_of [(''report.csv'', ''report_v2.csv''), (''summary.csv'', ''summary_v2.csv'')] ''x_v2'' = None"
    by (simp only: simp_thms if_False)
  show ?thesis by (intro conjI e1 e4 e2 l e3)
qed

section \<open>Adding a prefix twice\<close>

lemma add_prefix_plan_entry:
  assumes "(old, new) \<in> set (add_prefix_plan p fnames)"
  shows "new = p @ old \<and> \<not> startswith old p \<and> old \<in> set fnames"
proof -
  from assms have "(old, new) \<in> set [(filename, p @ filename). filename \<leftarrow> fnames, \<not> startswith filename p]"
    unfolding add_prefix_plan_def by (rule py_dict_subset)
  then show ?thesis unfolding set_comprehension by auto
qed

lemma startswith_Nil [simp]: "startswith s []"
  by (simp add: startswith_def)

lemma startswith_self_append: "startswith (p @ s) p"
  by (simp add: startswith_def)

lemma add_prefix_plan_empty:
  assumes "\<forall>f \<in> set fnames. startswith f p"
  shows "add_prefix_plan p fnames = []"
proof -
  from assms have "[(filename, p @ filename). filename \<leftarrow> fnames, \<not> startswith filename p] = []"
    by (induction fnames) simp_all
  then show ?thesis by (simp only: add_prefix_plan_def py_dict_def foldl_Nil)
qed

subsection \<open>The paths of the entries of the directory\<close>

lemma split_slash_nonempty: "split_slash p \<noteq> []"
  by (induction p) (simp_all split: list.split)

lemma split_slash_name: "CHR ''/'' \<notin> set f \<Longrightarrow> split_slash f = [f]"
  by (induction f) auto

lemma split_slash_append:
  "split_slash (a @ CHR ''/'' # b) = split_slash a @ split_slash b"
proof (induction a)
  case Nil
  show ?case by simp
next
  case (Cons c cs)
  obtain x xs where x: "split_slash cs = x # xs"
    using split_slash_nonempty [of cs] by (cases "split_slash cs") simp_all
  with Cons show ?case by simp
qed

lemma split_slash_snoc_name:
  assumes "CHR ''/'' \<notin> set f"
  shows "split_slash (a @ f) = butlast (split_slash a) @ [last (split_slash a) @ f]"
proof (induction a)
  case Nil
  from assms show ?case by (simp add: split_slash_name)
next
  case (Cons c cs)
  obtain x xs where x: "split_slash cs = x # xs"
    using split_slash_nonempty [of cs] by (cases "split_slash cs") simp_all
  obtain y ys where y: "split_slash (cs @ f) = y # ys"
    using split_slash_nonempty [of "cs @ f"] by (cases "split_slash (cs @ f)") simp_all
  from Cons x y show ?case
    by (cases xs) (auto simp: split_slash_nonempty)
qed

lemma split_slash_slash_end:
  assumes "endswith D ''/''"
  shows "last (split_slash D) = [] \<and> split_slash D = butlast (split_slash D) @ [[]]"
proof -
  from assms obtain r where "D = r @ ''/''" unfolding endswith_iff by blast
  then have "split_slash D = split_slash r @ [[]]"
    using split_slash_append [of r "[]"] by simp
  then show ?thesis by simp
qed

text \<open>
  The path of a name in the directory: the components that lead to the directory,
  then the name. \<open>dir_comps\<close> are those components: the components of the
  directory path, without the empty one after a slash at its end.
\<close>

lemma entry_path_comps:
  assumes "D \<noteq> []" and "entry_name f"
  shows "split_slash (os_path_join D f)
           = (if endswith D ''/'' then butlast (split_slash D) else split_slash D) @ [f]"
proof -
  from assms(2) have f: "f \<noteq> []" "CHR ''/'' \<notin> set f" by (simp_all add: entry_name_def)
  then have ns: "\<not> startswith f ''/''"
    by (cases f) (auto simp: startswith_def)
  show ?thesis
  proof (cases "endswith D ''/''")
    case True
    with assms(1) ns have j: "os_path_join D f = D @ f" by (simp add: os_path_join_def)
    from True have l: "last (split_slash D) = []"
      by (rule conjunct1 [OF split_slash_slash_end])
    from f(2) have "split_slash (D @ f) = butlast (split_slash D) @ [last (split_slash D) @ f]"
      by (rule split_slash_snoc_name)
    then have "split_slash (D @ f) = butlast (split_slash D) @ [f]"
      by (simp only: l append_Nil)
    with True show ?thesis by (simp only: j if_True)
  next
    case False
    with assms(1) ns have j: "os_path_join D f = D @ CHR ''/'' # f" by (simp add: os_path_join_def)
    have "split_slash (D @ CHR ''/'' # f) = split_slash D @ split_slash f"
      by (rule split_slash_append)
    also from f(2) have "split_slash f = [f]" by (rule split_slash_name)
    finally show ?thesis using False by (simp only: j if_False)
  qed
qed

lemma entry_path_start:
  assumes "D \<noteq> []" and "entry_name f"
  shows "startswith (os_path_join D f) ''/'' = startswith D ''/''"
proof -
  from assms(2) have "f \<noteq> []" "CHR ''/'' \<notin> set f" by (simp_all add: entry_name_def)
  then have "\<not> startswith f ''/''"
    by (cases f) (auto simp: startswith_def)
  with assms(1) show ?thesis
    by (cases D) (simp_all add: os_path_join_def startswith_def)
qed

lemma walk_dir_comps:
  assumes "walk tab cur (split_slash D) = Some d" and "map_of tab d = Some (Dir parent es)"
  shows "walk tab cur (if endswith D ''/'' then butlast (split_slash D) else split_slash D) = Some d"
proof (cases "endswith D ''/''")
  case False
  with assms(1) show ?thesis by simp
next
  case True
  then have "split_slash D = butlast (split_slash D) @ [[]]"
    by (rule conjunct2 [OF split_slash_slash_end])
  then have "walk tab cur (split_slash D) = walk tab cur (butlast (split_slash D) @ [[]])"
    by (rule arg_cong)
  with assms(1) have w: "walk tab cur (butlast (split_slash D) @ [[]]) = Some d"
    by (simp only:)
  then obtain d' where d': "walk tab cur (butlast (split_slash D)) = Some d'"
    and l: "walk tab d' [[]] = Some d"
    by (auto simp: walk_append split: option.splits)
  from l have "d' = d"
    by (auto split: option.splits inode.splits)
  with d' True show ?thesis by simp
qed

lemma strip_slashes_snoc: "f \<noteq> [] \<Longrightarrow> strip_slashes (C @ [f]) = C @ [f]"
  by (simp add: strip_slashes_def)

lemma locate_named:
  assumes "split_slash path = C @ [f]" and "entry_name f"
  shows "locate s path =
     (case walk (inodes s) (start_of s path) C of
        None \<Rightarrow> None
      | Some d \<Rightarrow> (case map_of (inodes s) d of
                     Some (Dir parent es) \<Rightarrow> Some (d, f, False)
                   | _ \<Rightarrow> None))"
proof -
  from assms(2) have f: "f \<noteq> []" "f \<noteq> ''.''" "f \<noteq> ''..''" by (simp_all add: entry_name_def)
  from f(1) have "strip_slashes (C @ [f]) = C @ [f]" by (rule strip_slashes_snoc)
  with assms(1) f show ?thesis
    by (simp add: locate_def Let_def split: option.split inode.split)
qed

subsection \<open>Where the directory path leads while its entries are renamed\<close>

text \<open>
  Let two tables of nodes differ in the entries of the directory \<open>d\<close> only, and
  there so that every name with the prefix that \<open>d\<close> held it holds still, and every
  name without the prefix that it holds it held before. Then a path that leads
  somewhere in both tables leads to the same node.
\<close>

lemma walk_lockstep:
  assumes off: "\<And>k. k \<noteq> d \<Longrightarrow> map_of tab' k = map_of tab k"
    and d: "map_of tab d = Some (Dir parent es)"
    and d': "map_of tab' d = Some (Dir parent es')"
    and keep: "\<And>c n. startswith c p \<Longrightarrow> map_of es c = Some n \<Longrightarrow> map_of es' c = Some n"
    and older: "\<And>c n. \<not> startswith c p \<Longrightarrow> map_of es' c = Some n \<Longrightarrow> map_of es c = Some n"
    and w: "walk tab cur cs = Some r"
    and w': "walk tab' cur cs = Some r'"
  shows "r = r'"
  using w w'
proof (induction cs arbitrary: cur)
  case Nil
  then show ?case by simp
next
  case (Cons c cs)
  show ?case
  proof (cases "cur = d")
    case True
    show ?thesis
    proof (cases "c = [] \<or> c = ''.''")
      case stay: True
      with Cons.prems True d d' have "walk tab d cs = Some r" "walk tab' d cs = Some r'"
        by auto
      with Cons.IH show ?thesis by blast
    next
      case name: False
      show ?thesis
      proof (cases "c = ''..''")
        case up: True
        with Cons.prems True d d' have "walk tab parent cs = Some r" "walk tab' parent cs = Some r'"
          by auto
        with Cons.IH show ?thesis by blast
      next
        case False
        with Cons.prems True d d' name obtain n n' where
          n: "map_of es c = Some n" "walk tab n cs = Some r"
          and n': "map_of es' c = Some n'" "walk tab' n' cs = Some r'"
          by (auto split: option.splits)
        have "n = n'"
        proof (cases "startswith c p")
          case True
          from keep [OF True n(1)] n'(1) show ?thesis by simp
        next
          case False
          from older [OF False n'(1)] n(1) show ?thesis by simp
        qed
        with n(2) n'(2) Cons.IH show ?thesis by blast
      qed
    qed
  next
    case False
    then have same: "map_of tab' cur = map_of tab cur" by (rule off)
    from Cons.prems(1) obtain parent'' es'' where node: "map_of tab cur = Some (Dir parent'' es'')"
      by (auto split: option.splits inode.splits)
    show ?thesis
    proof (cases "c = [] \<or> c = ''.''")
      case stay: True
      with Cons.prems same node have "walk tab cur cs = Some r" "walk tab' cur cs = Some r'"
        by auto
      with Cons.IH show ?thesis by blast
    next
      case name: False
      show ?thesis
      proof (cases "c = ''..''")
        case up: True
        with Cons.prems same node have "walk tab parent'' cs = Some r" "walk tab' parent'' cs = Some r'"
          by auto
        with Cons.IH show ?thesis by blast
      next
        case False
        with Cons.prems same node name obtain n where
          "walk tab n cs = Some r" "walk tab' n cs = Some r'"
          by (auto split: option.splits)
        with Cons.IH show ?thesis by blast
      qed
    qed
  qed
qed

subsection \<open>One entry of the plan\<close>

lemma entry_name_prefixed:
  assumes "CHR ''/'' \<notin> set p" and "entry_name f"
  shows "entry_name (p @ f)"
proof -
  from assms(2) have f: "f \<noteq> []" "CHR ''/'' \<notin> set f" "f \<noteq> ''.''" "f \<noteq> ''..''"
    by (simp_all add: entry_name_def)
  have "p @ f \<noteq> ''.''"
  proof
    assume e: "p @ f = ''.''"
    show False
    proof (cases p)
      case Nil
      with e f(3) show False by simp
    next
      case (Cons c cs)
      with e f(1) show False by simp
    qed
  qed
  moreover have "p @ f \<noteq> ''..''"
  proof
    assume e: "p @ f = ''..''"
    show False
    proof (cases p)
      case Nil
      with e f(4) show False by simp
    next
      case (Cons c cs)
      with e have cs: "cs @ f = ''.''" by simp
      show False
      proof (cases cs)
        case Nil
        with cs f(3) show False by simp
      next
        case (Cons c' cs')
        with cs f(1) show False by simp
      qed
    qed
  qed
  ultimately show ?thesis using assms(1) f(1,2) by (simp add: entry_name_def)
qed

text \<open>
  An entry of the directory that is renamed to a name of the directory: the
  directory loses the old name and gains the new one, for the same node, and nothing
  else changes.
\<close>

lemma rename_entry_applied:
  assumes comps_old: "split_slash (join_with_dir st old) = C @ [old]"
    and comps_new: "split_slash (join_with_dir st new) = C @ [new]"
    and so: "start_of st (join_with_dir st old) = c0"
    and sn: "start_of st (join_with_dir st new) = c0"
    and eo: "entry_name old" and en: "entry_name new"
    and oc: "rename_outcome (join_with_dir st old) (join_with_dir st new) st = Some Applied"
  shows "\<exists>d parent es n st'.
           rename (join_with_dir st old) (join_with_dir st new) st = (Inr (), st')
         \<and> walk (inodes st) c0 C = Some d \<and> map_of (inodes st) d = Some (Dir parent es)
         \<and> map_of es old = Some n \<and> map_of es new = None
         \<and> (\<forall>k. map_of (inodes st') k
                  = (if k = d then Some (Dir parent (filter (\<lambda>e. fst e \<noteq> old) es @ [(new, n)]))
                     else map_of (inodes st) k))
         \<and> directory st' = directory st \<and> cwd st' = cwd st"
proof -
  let ?op = "join_with_dir st old"
  let ?np = "join_with_dir st new"
  from oc have ex: "os_path_exists st ?op" and fresh: "\<not> os_path_exists st ?np"
    by (auto simp: rename_outcome_eq split: if_splits)
  from oc ex fresh obtain st1 where ren: "os_rename ?op ?np st = Inr st1"
    by (cases "os_rename ?op ?np st") (simp_all add: rename_outcome_eq)
  from os_rename_fresh [OF ren fresh] obtain po a sa pn b sb n ppo eso ppn esn where
    lo: "locate st ?op = Some (po, a, sa)" and ln: "locate st ?np = Some (pn, b, sb)"
    and po: "map_of (inodes st) po = Some (Dir ppo eso)"
    and pn: "map_of (inodes st) pn = Some (Dir ppn esn)"
    and ea: "map_of eso a = Some n" and eb: "map_of esn b = None"
    and st1: "st1 = st\<lparr>inodes := move (inodes st) po a pn b n\<rparr>"
    by blast
  from lo have wo: "walk (inodes st) c0 C = Some po" and a: "a = old"
    unfolding locate_named [OF comps_old eo] so
    by (auto split: option.splits inode.splits)
  from ln have wn: "walk (inodes st) c0 C = Some pn" and b: "b = new"
    unfolding locate_named [OF comps_new en] sn
    by (auto split: option.splits inode.splits)
  from wo wn have same: "pn = po" by simp
  with po pn have es: "esn = eso" by simp
  have r: "rename ?op ?np st = (Inr (), st1\<lparr>renames := renames st1 @ [(?op, ?np)]\<rparr>)"
    using ex fresh ren by (rule rename_applied)
  have tab: "\<forall>k. map_of (inodes (st1\<lparr>renames := renames st1 @ [(?op, ?np)]\<rparr>)) k
                  = (if k = po then Some (Dir ppo (filter (\<lambda>e. fst e \<noteq> old) eso @ [(new, n)]))
                     else map_of (inodes st) k)"
    unfolding st1 same a b by (simp add: map_of_move_same [OF po])
  have f: "directory (st1\<lparr>renames := renames st1 @ [(?op, ?np)]\<rparr>) = directory st"
    "cwd (st1\<lparr>renames := renames st1 @ [(?op, ?np)]\<rparr>) = cwd st"
    unfolding st1 by simp_all
  from ea a have ea': "map_of eso old = Some n" by simp
  from eb b es have eb': "map_of eso new = None" by simp
  from r wo po ea' eb' tab f show ?thesis by blast
qed

text \<open>What \<open>os.listdir\<close> has found when it returns.\<close>

lemma listing_dir:
  assumes "filenames s = Inr fnames"
  shows "\<exists>d parent es. directory s \<noteq> []
       \<and> walk (inodes s) (start_of s (directory s)) (split_slash (directory s)) = Some d
       \<and> map_of (inodes s) d = Some (Dir parent es) \<and> fnames = map fst es"
  using assms
  by (auto simp: filenames_def os_listdir_def resolve_def
           split: if_splits option.splits inode.splits)

subsection \<open>The whole plan\<close>

text \<open>
  While the entries of a plan of \<open>add_prefix\<close> are renamed one after the other, the
  directory path keeps leading to the same directory \<open>d\<close>, and every name that \<open>d\<close>
  holds has the prefix or is still to be renamed. At the end all have the prefix.
\<close>

lemma all_applied_prefixed:
  assumes run: "make_changes plan st = (Inr (), st')"
    and app: "\<forall>oc \<in> set (make_changes_outcomes plan st). oc = Applied"
    and ents: "\<forall>(old, new) \<in> set plan.
                 new = p @ old \<and> \<not> startswith old p \<and> entry_name old \<and> entry_name new"
    and dir: "directory st = D" and ne: "D \<noteq> []"
    and cw: "(if startswith D ''/'' then 0 else cwd st) = c0"
    and w0: "walk tab0 c0 (if endswith D ''/'' then butlast (split_slash D) else split_slash D) = Some d"
    and off: "\<forall>k. k \<noteq> d \<longrightarrow> map_of (inodes st) k = map_of tab0 k"
    and d0: "map_of tab0 d = Some (Dir parent es0)"
    and d: "map_of (inodes st) d = Some (Dir parent es)"
    and keep: "\<forall>c n. startswith c p \<longrightarrow> map_of es0 c = Some n \<longrightarrow> map_of es c = Some n"
    and older: "\<forall>c n. \<not> startswith c p \<longrightarrow> map_of es c = Some n \<longrightarrow> map_of es0 c = Some n"
    and names: "\<forall>c \<in> fst ` set es. startswith c p \<or> c \<in> fst ` set plan"
  shows "\<exists>es'. map_of (inodes st') d = Some (Dir parent es')
       \<and> (\<forall>k. k \<noteq> d \<longrightarrow> map_of (inodes st') k = map_of tab0 k)
       \<and> (\<forall>c n. startswith c p \<longrightarrow> map_of es0 c = Some n \<longrightarrow> map_of es' c = Some n)
       \<and> (\<forall>c n. \<not> startswith c p \<longrightarrow> map_of es' c = Some n \<longrightarrow> map_of es0 c = Some n)
       \<and> (\<forall>c \<in> fst ` set es'. startswith c p)
       \<and> directory st' = D \<and> cwd st' = cwd st"
  using run app ents dir cw off d keep older names
proof (induction plan arbitrary: st es)
  case Nil
  then show ?case by auto
next
  case (Cons entry rest)
  obtain old new where entry: "entry = (old, new)" by (cases entry)
  let ?C = "if endswith D ''/'' then butlast (split_slash D) else split_slash D"
  let ?op = "join_with_dir st old"
  let ?np = "join_with_dir st new"
  note dir = \<open>directory st = D\<close>
  note cw = \<open>(if startswith D ''/'' then 0 else cwd st) = c0\<close>
  note off = \<open>\<forall>k. k \<noteq> d \<longrightarrow> map_of (inodes st) k = map_of tab0 k\<close>
  note d = \<open>map_of (inodes st) d = Some (Dir parent es)\<close>
  note keep = \<open>\<forall>c n. startswith c p \<longrightarrow> map_of es0 c = Some n \<longrightarrow> map_of es c = Some n\<close>
  note older = \<open>\<forall>c n. \<not> startswith c p \<longrightarrow> map_of es c = Some n \<longrightarrow> map_of es0 c = Some n\<close>
  note names = \<open>\<forall>c \<in> fst ` set es. startswith c p \<or> c \<in> fst ` set (entry # rest)\<close>
  from Cons.prems(3) entry have e: "new = p @ old" "\<not> startswith old p" "entry_name old" "entry_name new"
    and ents': "\<forall>(old, new) \<in> set rest.
                 new = p @ old \<and> \<not> startswith old p \<and> entry_name old \<and> entry_name new"
    by auto
  from Cons.prems(1) entry obtain st2 where
    r: "rename ?op ?np st = (Inr (), st2)" and run': "make_changes rest st2 = (Inr (), st')"
    by (cases "rename ?op ?np st") (auto split: sum.splits)
  from r have "\<not> (\<exists>e. fst (rename ?op ?np st) = Inl e)" by simp
  then obtain oc where oc: "rename_outcome ?op ?np st = Some oc"
    using rename_outcome_None [of ?op ?np st] by auto
  with Cons.prems(2) entry r have applied: "rename_outcome ?op ?np st = Some Applied"
    and app': "\<forall>oc \<in> set (make_changes_outcomes rest st2). oc = Applied"
    by simp_all
  have co: "split_slash ?op = ?C @ [old]"
    unfolding join_with_dir_def dir using ne e(3) by (rule entry_path_comps)
  have cn: "split_slash ?np = ?C @ [new]"
    unfolding join_with_dir_def dir using ne e(4) by (rule entry_path_comps)
  have so: "start_of st ?op = c0"
    unfolding start_of_def join_with_dir_def dir entry_path_start [OF ne e(3)] by (rule cw)
  have sn: "start_of st ?np = c0"
    unfolding start_of_def join_with_dir_def dir entry_path_start [OF ne e(4)] by (rule cw)
  from rename_entry_applied [OF co cn so sn e(3) e(4) applied] r
  obtain d1 parent1 es1 n where
    w1: "walk (inodes st) c0 ?C = Some d1" and d1: "map_of (inodes st) d1 = Some (Dir parent1 es1)"
    and eo: "map_of es1 old = Some n" and en: "map_of es1 new = None"
    and tab: "\<forall>k. map_of (inodes st2) k
                  = (if k = d1 then Some (Dir parent1 (filter (\<lambda>e. fst e \<noteq> old) es1 @ [(new, n)]))
                     else map_of (inodes st) k)"
    and dir2: "directory st2 = directory st" and cwd2: "cwd st2 = cwd st"
    by auto
  have "d = d1"
  proof (rule walk_lockstep [where tab = tab0 and tab' = "inodes st" and d = d and p = p])
    show "\<And>k. k \<noteq> d \<Longrightarrow> map_of (inodes st) k = map_of tab0 k" using off by blast
    show "map_of tab0 d = Some (Dir parent es0)" by (rule d0)
    show "map_of (inodes st) d = Some (Dir parent es)" by (rule d)
    show "\<And>c n. startswith c p \<Longrightarrow> map_of es0 c = Some n \<Longrightarrow> map_of es c = Some n"
      using keep by blast
    show "\<And>c n. \<not> startswith c p \<Longrightarrow> map_of es c = Some n \<Longrightarrow> map_of es0 c = Some n"
      using older by blast
    show "walk tab0 c0 ?C = Some d" by (rule w0)
    show "walk (inodes st) c0 ?C = Some d1" by (rule w1)
  qed
  with d d1 have same: "d1 = d" "parent1 = parent" "es1 = es" by simp_all
  let ?es2 = "filter (\<lambda>e. fst e \<noteq> old) es @ [(new, n)]"
  have look: "map_of ?es2 c = (if c = old then (if c = new then Some n else None)
                               else (case map_of es c of Some v \<Rightarrow> Some v
                                     | None \<Rightarrow> if c = new then Some n else None))" for c
    by (simp add: map_of_snoc map_of_filter_fst del: map_of_append)
  from e(1) have np: "startswith new p" by (simp add: startswith_self_append)
  from tab same have d2: "map_of (inodes st2) d = Some (Dir parent ?es2)"
    by simp
  from tab same off have off2: "\<forall>k. k \<noteq> d \<longrightarrow> map_of (inodes st2) k = map_of tab0 k"
    by simp
  have keep2: "\<forall>c n. startswith c p \<longrightarrow> map_of es0 c = Some n \<longrightarrow> map_of ?es2 c = Some n"
  proof (intro allI impI)
    fix c m assume c: "startswith c p" and m: "map_of es0 c = Some m"
    from c e(2) have "c \<noteq> old" by auto
    moreover from keep c m have "map_of es c = Some m" by blast
    ultimately show "map_of ?es2 c = Some m" by (simp add: look del: map_of_append)
  qed
  have older2: "\<forall>c n. \<not> startswith c p \<longrightarrow> map_of ?es2 c = Some n \<longrightarrow> map_of es0 c = Some n"
  proof (intro allI impI)
    fix c m assume c: "\<not> startswith c p" and m: "map_of ?es2 c = Some m"
    from c np have "c \<noteq> new" by auto
    with m have "map_of es c = Some m"
      by (auto simp: look simp del: map_of_append split: if_splits option.splits)
    with older c show "map_of es0 c = Some m" by blast
  qed
  have names2: "\<forall>c \<in> fst ` set ?es2. startswith c p \<or> c \<in> fst ` set rest"
  proof
    fix c assume "c \<in> fst ` set ?es2"
    then have "c = new \<or> (c \<in> fst ` set es \<and> c \<noteq> old)" by auto
    then show "startswith c p \<or> c \<in> fst ` set rest"
    proof
      assume "c = new"
      with np show ?thesis by simp
    next
      assume c: "c \<in> fst ` set es \<and> c \<noteq> old"
      with names have "startswith c p \<or> c \<in> fst ` set (entry # rest)" by blast
      with c entry show ?thesis by auto
    qed
  qed
  from dir dir2 have dir2': "directory st2 = D" by simp
  from cw have cw2: "(if startswith D ''/'' then 0 else cwd st2) = c0" by (simp only: cwd2)
  from Cons.IH [OF run' app' ents' dir2' cw2 off2 d2 keep2 older2 names2] cwd2
  show ?case by simp
qed

text \<open>
  C7 as stated, for every prefix, fails for a prefix with a slash in it. In
  \<open>/home/u/docs\<close> with the file \<open>a.txt\<close>, the prefix \<open>./z\<close> plans \<open>a.txt\<close> to
  \<open>./za.txt\<close>; the entry is renamed, to the path \<open>/home/u/docs/./za.txt\<close>, and the
  directory then lists \<open>za.txt\<close>, which does not start with \<open>./z\<close>: the plan of the
  second cycle has an entry again.
\<close>

theorem add_prefix_twice_counterexample:
  "filenames (demo_dir [''a.txt'']) = Inr [''a.txt'']
   \<and> add_prefix_plan ''./z'' [''a.txt''] = [(''a.txt'', ''./za.txt'')]
   \<and> make_changes_outcomes (add_prefix_plan ''./z'' [''a.txt''])
        (show_and_ask (add_prefix_plan ''./z'' [''a.txt'']) True (demo_dir [''a.txt''])) = [Applied]
   \<and> fst (add_prefix ''./z'' True ''y'' (demo_dir [''a.txt''])) = Inr ()
   \<and> filenames (snd (add_prefix ''./z'' True ''y'' (demo_dir [''a.txt'']))) = Inr [''za.txt'']
   \<and> add_prefix_plan ''./z'' [''za.txt''] = [(''za.txt'', ''./zza.txt'')]"
proof -
  have a: "filenames (demo_dir [''a.txt'']) = Inr [''a.txt'']"
    by code_simp
  have b: "add_prefix_plan ''./z'' [''a.txt''] = [(''a.txt'', ''./za.txt'')]"
    by code_simp
  have c: "make_changes_outcomes (add_prefix_plan ''./z'' [''a.txt''])
        (show_and_ask (add_prefix_plan ''./z'' [''a.txt'']) True (demo_dir [''a.txt''])) = [Applied]"
    by code_simp
  have d: "fst (add_prefix ''./z'' True ''y'' (demo_dir [''a.txt''])) = Inr ()"
    by code_simp
  have e: "filenames (snd (add_prefix ''./z'' True ''y'' (demo_dir [''a.txt'']))) = Inr [''za.txt'']"
    by code_simp
  have f: "add_prefix_plan ''./z'' [''za.txt''] = [(''za.txt'', ''./zza.txt'')]"
    by code_simp
  show ?thesis by (intro conjI a b c d e f)
qed

text \<open>
  C7, amended. Let the prefix have no slash in it, let the directory list names as a
  directory holds them, and let the first cycle of \<open>add_prefix\<close>, answered \<open>y\<close>,
  rename every entry of its plan. Then the first cycle returns, and if the directory
  can be listed again, every name of the new listing starts with the prefix and the
  plan of a second cycle is empty.
\<close>

theorem add_prefix_twice:
  assumes "CHR ''/'' \<notin> set prefix"
    and "filenames s = Inr fnames"
    and "\<forall>f \<in> set fnames. entry_name f"
    and "make_changes_outcomes (add_prefix_plan prefix fnames)
            (show_and_ask (add_prefix_plan prefix fnames) display s)
         = replicate (length (add_prefix_plan prefix fnames)) Applied"
    and "filenames (snd (add_prefix prefix display ''y'' s)) = Inr fnames'"
  shows "fst (add_prefix prefix display ''y'' s) = Inr ()
       \<and> (\<forall>f \<in> set fnames'. startswith f prefix)
       \<and> add_prefix_plan prefix fnames' = []"
proof -
  let ?plan = "add_prefix_plan prefix fnames"
  let ?s0 = "show_and_ask ?plan display s"
  let ?D = "directory s"
  let ?C = "if endswith ?D ''/'' then butlast (split_slash ?D) else split_slash ?D"
  let ?c0 = "if startswith ?D ''/'' then 0 else cwd s"
  from assms(4) have "length (make_changes_outcomes ?plan ?s0) = length ?plan"
    by simp
  then have "fst (make_changes ?plan ?s0) = Inr ()"
    by (simp only: make_changes_returns)
  then obtain s' where run: "make_changes ?plan ?s0 = (Inr (), s')"
    by (cases "make_changes ?plan ?s0") simp
  have ap: "add_prefix prefix display ''y'' s = (Inr (), s')"
    by (simp add: add_prefix_def assms(2) rename_these_yes run)
  from assms(4) have app: "\<forall>oc \<in> set (make_changes_outcomes ?plan ?s0). oc = Applied"
    by simp
  from listing_dir [OF assms(2)] obtain d parent es0 where
    ne: "?D \<noteq> []"
    and w: "walk (inodes s) (start_of s ?D) (split_slash ?D) = Some d"
    and d0: "map_of (inodes s) d = Some (Dir parent es0)"
    and fnames: "fnames = map fst es0"
    by blast
  from w have w': "walk (inodes s) ?c0 (split_slash ?D) = Some d"
    by (simp only: start_of_def)
  from w' d0 have w0: "walk (inodes s) ?c0 ?C = Some d"
    by (rule walk_dir_comps)
  have ents: "\<forall>(old, new) \<in> set ?plan.
                 new = prefix @ old \<and> \<not> startswith old prefix \<and> entry_name old \<and> entry_name new"
  proof (rule ballI)
    fix kv assume kv: "kv \<in> set ?plan"
    obtain old new where e: "kv = (old, new)" by (cases kv)
    with kv have "(old, new) \<in> set ?plan" by simp
    then have p: "new = prefix @ old" "\<not> startswith old prefix" "old \<in> set fnames"
      using add_prefix_plan_entry by blast+
    from p(3) assms(3) have o: "entry_name old" by blast
    with assms(1) have "entry_name (prefix @ old)" by (rule entry_name_prefixed)
    with p o show "case kv of (old, new) \<Rightarrow>
                 new = prefix @ old \<and> \<not> startswith old prefix \<and> entry_name old \<and> entry_name new"
      by (simp add: e)
  qed
  have names: "\<forall>c \<in> fst ` set es0. startswith c prefix \<or> c \<in> fst ` set ?plan"
  proof
    fix c assume "c \<in> fst ` set es0"
    then have "c \<in> set fnames" by (simp add: fnames)
    then show "startswith c prefix \<or> c \<in> fst ` set ?plan"
      unfolding add_prefix_plan_def keys_py_dict_graph by blast
  qed
  have dir: "directory ?s0 = ?D" by simp
  have cw: "(if startswith ?D ''/'' then 0 else cwd ?s0) = ?c0" by simp
  have off: "\<forall>k. k \<noteq> d \<longrightarrow> map_of (inodes ?s0) k = map_of (inodes s) k" by simp
  have d: "map_of (inodes ?s0) d = Some (Dir parent es0)" using d0 by simp
  have keep: "\<forall>c n. startswith c prefix \<longrightarrow> map_of es0 c = Some n \<longrightarrow> map_of es0 c = Some n"
    by simp
  have older: "\<forall>c n. \<not> startswith c prefix \<longrightarrow> map_of es0 c = Some n \<longrightarrow> map_of es0 c = Some n"
    by simp
  from all_applied_prefixed [OF run app ents dir ne cw w0 off d0 d keep older names]
  obtain es' where after:
    "map_of (inodes s') d = Some (Dir parent es')
     \<and> (\<forall>k. k \<noteq> d \<longrightarrow> map_of (inodes s') k = map_of (inodes s) k)
     \<and> (\<forall>c n. startswith c prefix \<longrightarrow> map_of es0 c = Some n \<longrightarrow> map_of es' c = Some n)
     \<and> (\<forall>c n. \<not> startswith c prefix \<longrightarrow> map_of es' c = Some n \<longrightarrow> map_of es0 c = Some n)
     \<and> (\<forall>c \<in> fst ` set es'. startswith c prefix)
     \<and> directory s' = ?D \<and> cwd s' = cwd ?s0"
    ..
  note d' = conjunct1 [OF after]
  note after2 = conjunct2 [OF after]
  note off' = conjunct1 [OF after2]
  note after3 = conjunct2 [OF after2]
  note keep' = conjunct1 [OF after3]
  note after4 = conjunct2 [OF after3]
  note older' = conjunct1 [OF after4]
  note after5 = conjunct2 [OF after4]
  note all = conjunct1 [OF after5]
  note dir' = conjunct1 [OF conjunct2 [OF after5]]
  note cwd' = conjunct2 [OF conjunct2 [OF after5]]
  from assms(5) have "filenames s' = Inr fnames'" by (simp add: ap)
  from listing_dir [OF this] obtain d2 parent2 es2 where
    w2: "walk (inodes s') (start_of s' (directory s')) (split_slash (directory s')) = Some d2"
    and d2: "map_of (inodes s') d2 = Some (Dir parent2 es2)"
    and fnames': "fnames' = map fst es2"
    by blast
  from cwd' have "start_of s' ?D = ?c0" by (simp add: start_of_def)
  with w2 dir' have w2': "walk (inodes s') ?c0 (split_slash ?D) = Some d2" by simp
  have "d = d2"
  proof (rule walk_lockstep [where tab = "inodes s" and tab' = "inodes s'" and d = d and p = prefix])
    show "\<And>k. k \<noteq> d \<Longrightarrow> map_of (inodes s') k = map_of (inodes s) k" using off' by blast
    show "map_of (inodes s) d = Some (Dir parent es0)" by (rule d0)
    show "map_of (inodes s') d = Some (Dir parent es')" by (rule d')
    show "\<And>c n. startswith c prefix \<Longrightarrow> map_of es0 c = Some n \<Longrightarrow> map_of es' c = Some n"
      using keep' by blast
    show "\<And>c n. \<not> startswith c prefix \<Longrightarrow> map_of es' c = Some n \<Longrightarrow> map_of es0 c = Some n"
      using older' by blast
    show "walk (inodes s) ?c0 (split_slash ?D) = Some d" by (rule w')
    show "walk (inodes s') ?c0 (split_slash ?D) = Some d2" by (rule w2')
  qed
  with d' d2 have "es2 = es'" by simp
  with all fnames' have prefixed: "\<forall>f \<in> set fnames'. startswith f prefix" by simp
  then have empty: "add_prefix_plan prefix fnames' = []"
    by (rule add_prefix_plan_empty)
  from ap have ret: "fst (add_prefix prefix display ''y'' s) = Inr ()" by simp
  show ?thesis by (intro conjI ret prefixed empty)
qed

theorem add_prefix_twice_witness:
  "CHR ''/'' \<notin> set ''x_''
   \<and> filenames (demo_dir [''a.txt'', ''x_b.txt'']) = Inr [''a.txt'', ''x_b.txt'']
   \<and> entry_name ''a.txt'' \<and> entry_name ''x_b.txt''
   \<and> make_changes_outcomes (add_prefix_plan ''x_'' [''a.txt'', ''x_b.txt''])
        (show_and_ask (add_prefix_plan ''x_'' [''a.txt'', ''x_b.txt'']) True
           (demo_dir [''a.txt'', ''x_b.txt'']))
       = replicate (length (add_prefix_plan ''x_'' [''a.txt'', ''x_b.txt''])) Applied
   \<and> filenames (snd (add_prefix ''x_'' True ''y'' (demo_dir [''a.txt'', ''x_b.txt''])))
       = Inr [''x_b.txt'', ''x_a.txt'']
   \<and> fst (add_prefix ''x_'' True ''y'' (demo_dir [''a.txt'', ''x_b.txt''])) = Inr ()
   \<and> add_prefix_plan ''x_'' [''x_b.txt'', ''x_a.txt''] = []"
proof -
  have h1: "CHR ''/'' \<notin> set ''x_''" by simp
  have h2: "filenames (demo_dir [''a.txt'', ''x_b.txt'']) = Inr [''a.txt'', ''x_b.txt'']"
    by code_simp
  have n1: "entry_name ''a.txt''" and n2: "entry_name ''x_b.txt''"
    by (simp_all add: entry_name_def)
  then have h3: "\<forall>f \<in> set [''a.txt'', ''x_b.txt'']. entry_name f"
    by simp
  have h4: "make_changes_outcomes (add_prefix_plan ''x_'' [''a.txt'', ''x_b.txt''])
        (show_and_ask (add_prefix_plan ''x_'' [''a.txt'', ''x_b.txt'']) True
           (demo_dir [''a.txt'', ''x_b.txt'']))
       = replicate (length (add_prefix_plan ''x_'' [''a.txt'', ''x_b.txt''])) Applied"
    by code_simp
  have h5: "filenames (snd (add_prefix ''x_'' True ''y'' (demo_dir [''a.txt'', ''x_b.txt''])))
       = Inr [''x_b.txt'', ''x_a.txt'']"
    by code_simp
  note t = add_prefix_twice [OF h1 h2 h3 h4 h5]
  from t have r: "fst (add_prefix ''x_'' True ''y'' (demo_dir [''a.txt'', ''x_b.txt''])) = Inr ()"
    by (rule conjunct1)
  from t have e: "add_prefix_plan ''x_'' [''x_b.txt'', ''x_a.txt''] = []"
    by (rule conjunct2 [OF conjunct2])
  show ?thesis by (intro conjI h1 h2 n1 n2 h4 h5 r e)
qed

section \<open>What every plan satisfies\<close>

lemma join_with_dir_print [simp]: "join_with_dir (print msg s) f = join_with_dir s f"
  by (simp add: join_with_dir_def)

lemma read_text_print [simp]: "read_text (print msg s) p = read_text s p"
  by (simp only: read_text_def resolve_def start_of_def inodes_print cwd_print)

lemma str_nat_nonempty: "str_nat n \<noteq> []"
  by (subst str_nat.simps) simp

lemma str_int_nonempty: "str_int i \<noteq> []"
  by (simp add: str_int_def str_nat_nonempty)

lemma endswith_Nil [simp]: "endswith s []"
  by (simp add: endswith_def)

lemma joiner_identity:
  assumes "joiner loc k m = Inr v"
  shows "k = v \<longleftrightarrow> m = []"
proof (cases "loc = ''end''")
  case True
  with assms have v: "v = takeWhile (\<lambda>c. c \<noteq> CHR ''.'') k @ m @ dropWhile (\<lambda>c. c \<noteq> CHR ''.'') k"
    by (simp add: joiner_def get_suffixed_eq split: if_splits)
  have "length (takeWhile (\<lambda>c. c \<noteq> CHR ''.'') k) + length (dropWhile (\<lambda>c. c \<noteq> CHR ''.'') k) = length k"
    by (metis length_append takeWhile_dropWhile_id)
  with v have len: "length v = length k + length m" by simp
  show ?thesis
  proof
    assume "k = v"
    with len show "m = []" by simp
  next
    assume "m = []"
    with v show "k = v" by simp
  qed
next
  case False
  with assms have "v = m @ k" by (simp add: joiner_def get_prefixed_def)
  then show ?thesis by auto
qed

lemma add_from_file_loop_entries:
  "add_from_file_loop re_search pattern loc fnames init s = (Inr d, s') \<Longrightarrow>
     (k, v) \<in> set d \<Longrightarrow>
     (k, v) \<in> set init
     \<or> (k \<in> set fnames
        \<and> (\<exists>content m. read_text s (join_with_dir s k) = Inr content
               \<and> re_search pattern content = Some (GroupStr m)
               \<and> joiner loc k m = Inr v))"
proof (induction re_search pattern loc fnames init s rule: add_from_file_loop.induct)
  case (1 re_search pattern loc change_list s)
  then show ?case by simp
next
  case (2 re_search pattern loc filename rest change_list s)
  show ?case
  proof (cases "endswith filename ''.txt''")
    case False
    with "2.prems" have "add_from_file_loop re_search pattern loc rest change_list
          (print (''Skipping '' @ filename) s) = (Inr d, s')"
      by simp
    from "2.IH"(1) [OF False this "2.prems"(2)] show ?thesis by auto
  next
    case True
    then have nn: "\<not> \<not> endswith filename ''.txt''" by simp
    show ?thesis
    proof (cases "read_text s (join_with_dir s filename)")
      case (Inl e)
      with True "2.prems" show ?thesis by simp
    next
      case content: (Inr content)
      show ?thesis
      proof (cases "re_search pattern content")
        case None
        with True content "2.prems"
        have "add_from_file_loop re_search pattern loc rest change_list s = (Inr d, s')"
          by simp
        from "2.IH"(2) [OF nn content None this "2.prems"(2)] show ?thesis by auto
      next
        case (Some g)
        show ?thesis
        proof (cases g)
          case NoSuchGroup
          with True content Some "2.prems" show ?thesis by simp
        next
          case GroupNone
          with True content Some "2.prems" show ?thesis by simp
        next
          case (GroupStr m)
          show ?thesis
          proof (cases "joiner loc filename m")
            case (Inl e)
            with True content Some GroupStr "2.prems" show ?thesis by simp
          next
            case (Inr new)
            with True content Some GroupStr "2.prems"
            have run: "add_from_file_loop re_search pattern loc rest
                    (AList.update filename new change_list) s = (Inr d, s')"
              by simp
            have sg: "re_search pattern content = Some (GroupStr m)"
              using Some GroupStr by simp
            from "2.IH"(3) [OF nn content Some GroupStr Inr run "2.prems"(2)]
            have "(k, v) \<in> set (AList.update filename new change_list)
               \<or> (k \<in> set rest
                  \<and> (\<exists>content m. read_text s (join_with_dir s k) = Inr content
                         \<and> re_search pattern content = Some (GroupStr m)
                         \<and> joiner loc k m = Inr v))"
              .
            then show ?thesis
            proof
              assume "(k, v) \<in> set (AList.update filename new change_list)"
              then have "(k, v) = (filename, new) \<or> (k, v) \<in> set change_list"
                by (rule set_update_subset)
              with content sg Inr show ?thesis by auto
            next
              assume "k \<in> set rest
                  \<and> (\<exists>content m. read_text s (join_with_dir s k) = Inr content
                         \<and> re_search pattern content = Some (GroupStr m)
                         \<and> joiner loc k m = Inr v)"
              then show ?thesis by auto
            qed
          qed
        qed
      qed
    qed
  qed
qed

lemma replace_plan_entry:
  assumes "(k, v) \<in> set (replace_plan x y fnames)"
  shows "k \<in> set fnames \<and> py_in x k \<and> v = py_replace x y k"
proof -
  from assms have "(k, v) \<in> set [(filename, py_replace x y filename). filename \<leftarrow> fnames, py_in x filename]"
    unfolding replace_plan_def by (rule py_dict_subset)
  then show ?thesis unfolding set_comprehension by auto
qed

lemma add_suffix_plan_entry:
  assumes "add_suffix_plan suffix fnames = Inr d" and "(k, v) \<in> set d"
  shows "k \<in> set fnames \<and> \<not> endswith k suffix
       \<and> v = takeWhile (\<lambda>c. c \<noteq> CHR ''.'') k @ suffix @ dropWhile (\<lambda>c. c \<noteq> CHR ''.'') k"
proof -
  from assms(1) have "d = py_dict [(f, takeWhile (\<lambda>c. c \<noteq> CHR ''.'') f @ suffix @ dropWhile (\<lambda>c. c \<noteq> CHR ''.'') f).
                  f \<leftarrow> fnames, \<not> endswith f suffix]"
    by (simp add: add_suffix_plan_eq split: if_splits)
  with assms(2) have "(k, v) \<in> set (py_dict [(f, takeWhile (\<lambda>c. c \<noteq> CHR ''.'') f @ suffix @ dropWhile (\<lambda>c. c \<noteq> CHR ''.'') f).
                  f \<leftarrow> fnames, \<not> endswith f suffix])"
    by (simp only:)
  then have "(k, v) \<in> set [(f, takeWhile (\<lambda>c. c \<noteq> CHR ''.'') f @ suffix @ dropWhile (\<lambda>c. c \<noteq> CHR ''.'') f).
                  f \<leftarrow> fnames, \<not> endswith f suffix]"
    by (rule py_dict_subset)
  then show ?thesis unfolding set_comprehension by auto
qed

lemma add_enum_plan_entry:
  assumes "(k, v) \<in> set (add_enum_plan start loc sep fnames)"
  shows "k \<in> set fnames \<and> (\<exists>idx. v = k @ sep @ str_int (int idx + start))"
proof -
  from assms have "(k, v) \<in> set (map (\<lambda>(idx, filename). (filename, filename @ sep @ str_int (int idx + start)))
         (enumerate 0 fnames))"
    unfolding add_enum_plan_alt by (rule py_dict_subset)
  then obtain idx filename where p: "(idx, filename) \<in> set (enumerate 0 fnames)"
    and k: "k = filename" and v: "v = filename @ sep @ str_int (int idx + start)"
    by auto
  from p have "filename \<in> set fnames" by (auto simp: in_set_enumerate_eq)
  with k v show ?thesis by auto
qed

lemma add_from_file_plan_entry:
  assumes "add_from_file_plan re_search pattern loc s = Inr d" and "(k, v) \<in> set d"
  shows "\<exists>fnames. filenames s = Inr fnames \<and> k \<in> set fnames
       \<and> (\<exists>content m. read_text s (join_with_dir s k) = Inr content
              \<and> re_search pattern content = Some (GroupStr m)
              \<and> joiner loc k m = Inr v)"
proof -
  from assms(1) obtain fnames where l: "filenames s = Inr fnames"
    by (cases "filenames s") (simp_all add: add_from_file_plan_def)
  with assms(1) have "fst (add_from_file_loop re_search pattern loc fnames [] s) = Inr d"
    by (simp add: add_from_file_plan_def)
  then obtain s' where "add_from_file_loop re_search pattern loc fnames [] s = (Inr d, s')"
    by (cases "add_from_file_loop re_search pattern loc fnames [] s") simp
  from add_from_file_loop_entries [OF this assms(2)] l show ?thesis by simp
qed

lemma plan_for_listing:
  assumes "plan_for re_search s rule = Inr d"
  shows "\<exists>fnames. filenames s = Inr fnames"
proof (cases "filenames s")
  case (Inl e)
  with assms show ?thesis
    by (cases rule) (simp_all add: add_from_file_plan_def)
next
  case (Inr fnames)
  then show ?thesis by simp
qed

lemma plan_for_entry:
  assumes "plan_for re_search s rule = Inr d" and "filenames s = Inr fnames" and "(k, v) \<in> set d"
  shows "k \<in> set fnames
       \<and> (k = v \<longrightarrow>
            (\<exists>x. rule = Replace x x)
          \<or> (\<exists>pattern loc content. rule = ContentMatch pattern loc
                \<and> read_text s (join_with_dir s k) = Inr content
                \<and> re_search pattern content = Some (GroupStr [])))"
proof (cases rule)
  case (Replace x y)
  with assms have "(k, v) \<in> set (replace_plan x y fnames)" by simp
  then have e: "k \<in> set fnames" "py_in x k" "v = py_replace x y k"
    using replace_plan_entry by blast+
  have "x = y" if "k = v"
  proof (rule ccontr)
    assume "x \<noteq> y"
    with e(2) have "py_replace x y k \<noteq> k" by (rule py_replace_changes)
    with e(3) that show False by simp
  qed
  with e(1) Replace show ?thesis by auto
next
  case (Prefix p)
  with assms have "(k, v) \<in> set (add_prefix_plan p fnames)" by simp
  then have e: "v = p @ k" "\<not> startswith k p" "k \<in> set fnames"
    using add_prefix_plan_entry by blast+
  from e(2) have "p \<noteq> []" by auto
  with e(1) have "k \<noteq> v" by simp
  with e(3) show ?thesis by simp
next
  case (Suffix sfx)
  with assms have "add_suffix_plan sfx fnames = Inr d" by simp
  from add_suffix_plan_entry [OF this assms(3)]
  have e: "k \<in> set fnames" "\<not> endswith k sfx"
    "v = takeWhile (\<lambda>c. c \<noteq> CHR ''.'') k @ sfx @ dropWhile (\<lambda>c. c \<noteq> CHR ''.'') k"
    by simp_all
  from e(2) have "sfx \<noteq> []" by auto
  then have "0 < length sfx" by simp
  moreover have "length (takeWhile (\<lambda>c. c \<noteq> CHR ''.'') k) + length (dropWhile (\<lambda>c. c \<noteq> CHR ''.'') k) = length k"
    by (metis length_append takeWhile_dropWhile_id)
  moreover have "length v = length (takeWhile (\<lambda>c. c \<noteq> CHR ''.'') k) + length sfx
      + length (dropWhile (\<lambda>c. c \<noteq> CHR ''.'') k)"
    using e(3) by simp
  ultimately have "length v \<noteq> length k" by linarith
  then have "k \<noteq> v" by auto
  with e(1) show ?thesis by simp
next
  case (Enumerate start sep loc)
  with assms have "(k, v) \<in> set (add_enum_plan start loc sep fnames)" by simp
  then obtain idx where e: "k \<in> set fnames" "v = k @ sep @ str_int (int idx + start)"
    using add_enum_plan_entry by blast
  from e(2) have "k \<noteq> v" using str_int_nonempty [of "int idx + start"] by simp
  with e(1) show ?thesis by simp
next
  case (ContentMatch pattern loc)
  with assms have "add_from_file_plan re_search pattern loc s = Inr d" by simp
  from add_from_file_plan_entry [OF this assms(3)] assms(2)
  obtain content m where e: "k \<in> set fnames"
    "read_text s (join_with_dir s k) = Inr content"
    "re_search pattern content = Some (GroupStr m)"
    "joiner loc k m = Inr v"
    by auto
  from e(4) have "k = v \<longleftrightarrow> m = []" by (rule joiner_identity)
  with e(1,2,3) ContentMatch show ?thesis by auto
qed

text \<open>
  C3, amended. When planning succeeds, the directory has been listed and every key of
  the plan is a name of that listing. A key equals its own value only for a replace
  rule whose two strings are equal (then every entry maps a name to itself), and for a
  content rule on a file whose captured text is empty.
\<close>

theorem plan_for_invariant:
  assumes "plan_for re_search s rule = Inr d"
  shows "(\<exists>fnames. filenames s = Inr fnames \<and> fst ` set d \<subseteq> set fnames)
       \<and> (\<forall>(k, v) \<in> set d. k = v \<longrightarrow>
            (\<exists>x. rule = Replace x x)
          \<or> (\<exists>pattern loc content. rule = ContentMatch pattern loc
                \<and> read_text s (join_with_dir s k) = Inr content
                \<and> re_search pattern content = Some (GroupStr [])))
       \<and> (\<forall>x. rule = Replace x x \<longrightarrow> (\<forall>(k, v) \<in> set d. k = v))"
proof (intro conjI)
  from assms obtain fnames where l: "filenames s = Inr fnames"
    using plan_for_listing by blast
  have "fst ` set d \<subseteq> set fnames"
  proof
    fix k assume "k \<in> fst ` set d"
    then obtain v where "(k, v) \<in> set d" by auto
    from plan_for_entry [OF assms l this] show "k \<in> set fnames" by (rule conjunct1)
  qed
  with l show "\<exists>fnames. filenames s = Inr fnames \<and> fst ` set d \<subseteq> set fnames"
    by blast
  show "\<forall>(k, v) \<in> set d. k = v \<longrightarrow>
            (\<exists>x. rule = Replace x x)
          \<or> (\<exists>pattern loc content. rule = ContentMatch pattern loc
                \<and> read_text s (join_with_dir s k) = Inr content
                \<and> re_search pattern content = Some (GroupStr []))"
  proof (rule ballI)
    fix kv assume kv: "kv \<in> set d"
    obtain k v where e: "kv = (k, v)" by (cases kv)
    from kv e have "(k, v) \<in> set d" by simp
    from plan_for_entry [OF assms l this]
    have "k = v \<longrightarrow>
            (\<exists>x. rule = Replace x x)
          \<or> (\<exists>pattern loc content. rule = ContentMatch pattern loc
                \<and> read_text s (join_with_dir s k) = Inr content
                \<and> re_search pattern content = Some (GroupStr []))"
      by (rule conjunct2)
    then show "case kv of (k, v) \<Rightarrow> k = v \<longrightarrow>
            (\<exists>x. rule = Replace x x)
          \<or> (\<exists>pattern loc content. rule = ContentMatch pattern loc
                \<and> read_text s (join_with_dir s k) = Inr content
                \<and> re_search pattern content = Some (GroupStr []))"
      by (simp only: e prod.case)
  qed
  show "\<forall>x. rule = Replace x x \<longrightarrow> (\<forall>(k, v) \<in> set d. k = v)"
  proof (intro allI impI ballI)
    fix x kv assume r: "rule = Replace x x" and kv: "kv \<in> set d"
    obtain k v where e: "kv = (k, v)" by (cases kv)
    from assms r kv e l have "(k, v) \<in> set (replace_plan x x fnames)" by simp
    then have "v = py_replace x x k" using replace_plan_entry by blast
    then have "k = v" by (simp add: py_replace_same)
    then show "case kv of (k, v) \<Rightarrow> k = v" by (simp only: e prod.case)
  qed
qed

theorem plan_for_invariant_witness:
  "plan_for (\<lambda>pattern content. Some (GroupStr ''42'')) (demo_dir [''a.txt'', ''notes''])
       (ContentMatch ''([0-9]+)'' ''end'') = Inr [(''a.txt'', ''a42.txt'')]
   \<and> filenames (demo_dir [''a.txt'', ''notes'']) = Inr [''a.txt'', ''notes'']
   \<and> fst ` set [(''a.txt'', ''a42.txt'')] \<subseteq> set [''a.txt'', ''notes'']
   \<and> ''a.txt'' \<noteq> ''a42.txt''"
proof -
  have h: "plan_for (\<lambda>pattern content. Some (GroupStr ''42'')) (demo_dir [''a.txt'', ''notes''])
       (ContentMatch ''([0-9]+)'' ''end'') = Inr [(''a.txt'', ''a42.txt'')]"
    by code_simp
  have l: "filenames (demo_dir [''a.txt'', ''notes'']) = Inr [''a.txt'', ''notes'']"
    by code_simp
  from plan_for_invariant [OF h]
  have "\<exists>fnames. filenames (demo_dir [''a.txt'', ''notes'']) = Inr fnames
      \<and> fst ` set [(''a.txt'', ''a42.txt'')] \<subseteq> set fnames"
    by (rule conjunct1)
  with l have k: "fst ` set [(''a.txt'', ''a42.txt'')] \<subseteq> set [''a.txt'', ''notes'']"
    by auto
  have n: "''a.txt'' \<noteq> ''a42.txt''" by simp
  show ?thesis by (intro conjI h l k n)
qed

text \<open>
  C3 as stated fails in its first half: replacing \<open>a\<close> by \<open>a\<close> plans the rename of
  \<open>a.txt\<close> to \<open>a.txt\<close>, and so does a content rule whose group captures the empty
  text.
\<close>

theorem plan_for_invariant_counterexample:
  "plan_for (\<lambda>pattern content. None) (demo_dir [''a.txt'', ''b.txt'']) (Replace ''a'' ''a'')
     = Inr [(''a.txt'', ''a.txt'')]
   \<and> plan_for (\<lambda>pattern content. Some (GroupStr [])) (demo_dir [''a.txt'', ''b.txt''])
       (ContentMatch ''(x*)'' ''end'')
     = Inr [(''a.txt'', ''a.txt''), (''b.txt'', ''b.txt'')]"
  by code_simp

end
